theory Spec2Isabelle
  imports Main "HOL-Library.Word" "HOL-Library.AList"
begin

unbundle bit_operations_syntax

section \<open>LRU-K replacer (lru\_k\_replacer.cpp)\<close>

text \<open>
  \<open>frame_id_t\<close> is a signed integer (the sentinel \<open>-1\<close> is used by \<open>Evict\<close>), time
  stamps and \<open>curr_size_\<close> are \<open>size_t\<close>, modelled as 64-bit words, so that \<open>-\<close>, \<open>+\<close>
  and \<open><\<close> are the unsigned machine operations.

  The two \<open>std::unordered_map\<close>s are association lists. The order of the list
  \<open>access_history\<close> is the order in which \<open>Evict\<close> walks the map. C++ leaves that
  order unspecified; \<open>RecordAccess\<close> here puts a new frame last. What is proved of
  \<open>Evict\<close> below is either evaluated for the possible orders or rests on an
  invariant that holds of every list.
\<close>

type_synonym frame_id_t = int
type_synonym size_t = "64 word"

record LRUKReplacer =
  access_history :: "(frame_id_t \<times> size_t list) list"
  evictable :: "(frame_id_t \<times> bool) list"
  replacer_size :: nat
  k_hist :: nat
  current_timestamp :: size_t
  curr_size :: size_t

text \<open>Reading a \<open>std::vector\<close> outside its bounds is undefined behaviour; it is a value here.\<close>

datatype lru_error = VectorOutOfBounds

definition LRUKReplacer_new :: "nat \<Rightarrow> nat \<Rightarrow> LRUKReplacer" where
  "LRUKReplacer_new num_frames k =
     \<lparr>access_history = [], evictable = [], replacer_size = num_frames, k_hist = k,
      current_timestamp = 0, curr_size = 0\<rparr>"

text \<open>
  \<open>evictable_[id]\<close>: \<open>operator[]\<close> of the map inserts the default value \<open>false\<close> when
  the key is absent.
\<close>

definition evictable_at ::
  "(frame_id_t \<times> bool) list \<Rightarrow> frame_id_t \<Rightarrow> bool \<times> (frame_id_t \<times> bool) list" where
  "evictable_at ev f =
     (case map_of ev f of
        Some b \<Rightarrow> (b, ev)
      | None \<Rightarrow> (False, AList.update f False ev))"

record evict_vars =
  victim_id :: frame_id_t
  max_backward_distance :: size_t
  latest_access_time :: size_t
  found_candidate_with_less_than_k_accesses :: bool

definition evict_vars_init :: evict_vars where
  "evict_vars_init =
     \<lparr>victim_id = - 1, max_backward_distance = 0, latest_access_time = - 1,
      found_candidate_with_less_than_k_accesses = False\<rparr>"

text \<open>One iteration of the loop of \<open>Evict\<close>, for the map entry \<open>(id, history)\<close>.\<close>

definition Evict_step ::
  "nat \<Rightarrow> size_t \<Rightarrow> frame_id_t \<times> size_t list \<Rightarrow> evict_vars \<times> (frame_id_t \<times> bool) list
     \<Rightarrow> lru_error + evict_vars \<times> (frame_id_t \<times> bool) list" where
  "Evict_step k now entry st =
     (let (vars, ev) = st; (id, history) = entry; (e, ev') = evictable_at ev id in
      if \<not> e then Inr (vars, ev')
      else
        (case (if length history < k
               then (if history = [] then Inl VectorOutOfBounds
                     else Inr (True, history ! 0))
               else (if k = 0 then Inl VectorOutOfBounds
                     else Inr (found_candidate_with_less_than_k_accesses vars,
                               now - history ! (length history - k)))) of
           Inl err \<Rightarrow> Inl err
         | Inr (found, backward_distance) \<Rightarrow>
             (let vars1 = vars\<lparr>found_candidate_with_less_than_k_accesses := found\<rparr> in
              if found then
                (if backward_distance < latest_access_time vars1
                 then Inr (vars1\<lparr>latest_access_time := backward_distance, victim_id := id\<rparr>, ev')
                 else Inr (vars1, ev'))
              else
                (if backward_distance > max_backward_distance vars1 \<or>
                    (backward_distance = max_backward_distance vars1 \<and>
                     last history < latest_access_time vars1)
                 then Inr (vars1\<lparr>max_backward_distance := backward_distance, victim_id := id,
                                 latest_access_time := last history\<rparr>, ev')
                 else Inr (vars1, ev')))))"

fun Evict_loop ::
  "nat \<Rightarrow> size_t \<Rightarrow> (frame_id_t \<times> size_t list) list \<Rightarrow> evict_vars \<times> (frame_id_t \<times> bool) list
     \<Rightarrow> lru_error + evict_vars \<times> (frame_id_t \<times> bool) list" where
  "Evict_loop k now [] st = Inr st"
| "Evict_loop k now (entry # entries) st =
     (case Evict_step k now entry st of
        Inl err \<Rightarrow> Inl err
      | Inr st' \<Rightarrow> Evict_loop k now entries st')"

definition Evict :: "LRUKReplacer \<Rightarrow> lru_error + frame_id_t option \<times> LRUKReplacer" where
  "Evict s =
     (case Evict_loop (k_hist s) (current_timestamp s) (access_history s)
             (evict_vars_init, evictable s) of
        Inl err \<Rightarrow> Inl err
      | Inr (vars, ev) \<Rightarrow>
          if victim_id vars = - 1 then Inr (None, s\<lparr>evictable := ev\<rparr>)
          else Inr (Some (victim_id vars),
                    s\<lparr>access_history := AList.delete (victim_id vars) (access_history s),
                      evictable := AList.update (victim_id vars) False ev,
                      curr_size := curr_size s - 1\<rparr>))"

definition RecordAccess :: "frame_id_t \<Rightarrow> LRUKReplacer \<Rightarrow> LRUKReplacer" where
  "RecordAccess frame_id s =
     (let history = (case map_of (access_history s) frame_id of None \<Rightarrow> [] | Some h \<Rightarrow> h) in
      s\<lparr>access_history :=
          AList.update frame_id (history @ [current_timestamp s]) (access_history s),
        current_timestamp := current_timestamp s + 1\<rparr>)"

definition SetEvictable :: "frame_id_t \<Rightarrow> bool \<Rightarrow> LRUKReplacer \<Rightarrow> LRUKReplacer" where
  "SetEvictable frame_id set_evictable s =
     (if map_of (access_history s) frame_id = None then s
      else
        (let (e, ev) = evictable_at (evictable s) frame_id in
         if e \<noteq> set_evictable
         then s\<lparr>evictable := AList.update frame_id set_evictable ev,
                curr_size := (if set_evictable then curr_size s + 1 else curr_size s - 1)\<rparr>
         else s\<lparr>evictable := ev\<rparr>))"

definition Remove :: "frame_id_t \<Rightarrow> LRUKReplacer \<Rightarrow> LRUKReplacer" where
  "Remove frame_id s =
     (if map_of (access_history s) frame_id \<noteq> None
      then
        (let (e, ev) = evictable_at (evictable s) frame_id in
         if e
         then s\<lparr>access_history := AList.delete frame_id (access_history s),
                evictable := AList.update frame_id False ev,
                curr_size := curr_size s - 1\<rparr>
         else s\<lparr>evictable := ev\<rparr>)
      else s)"

text \<open>\<open>Size()\<close> counts the entries of \<open>evictable_\<close> whose flag is set.\<close>

definition Size :: "LRUKReplacer \<Rightarrow> nat" where
  "Size s = length (filter snd (evictable s))"

text \<open>What a caller can observe of one frame: its history, and whether it is evictable.\<close>

definition hist :: "LRUKReplacer \<Rightarrow> frame_id_t \<Rightarrow> size_t list option" where
  "hist s f = map_of (access_history s) f"

definition is_evictable :: "LRUKReplacer \<Rightarrow> frame_id_t \<Rightarrow> bool" where
  "is_evictable s f = (map_of (evictable s) f = Some True)"

definition tracked :: "LRUKReplacer \<Rightarrow> frame_id_t \<Rightarrow> bool" where
  "tracked s f = (map_of (access_history s) f \<noteq> None)"

text \<open>
  Sequences of calls, for statements about every sequence of operations. The frame
  returned by \<open>Evict\<close> is dropped; an operation that runs into undefined behaviour
  ends the run with the error.
\<close>

datatype replacer_op =
  RecordAccessOp frame_id_t | SetEvictableOp frame_id_t bool | RemoveOp frame_id_t | EvictOp

fun apply_op :: "replacer_op \<Rightarrow> LRUKReplacer \<Rightarrow> lru_error + LRUKReplacer" where
  "apply_op (RecordAccessOp f) s = Inr (RecordAccess f s)"
| "apply_op (SetEvictableOp f b) s = Inr (SetEvictable f b s)"
| "apply_op (RemoveOp f) s = Inr (Remove f s)"
| "apply_op EvictOp s = (case Evict s of Inl err \<Rightarrow> Inl err | Inr (_, s') \<Rightarrow> Inr s')"

fun run :: "replacer_op list \<Rightarrow> LRUKReplacer \<Rightarrow> lru_error + LRUKReplacer" where
  "run [] s = Inr s"
| "run (x # xs) s = (case apply_op x s of Inl err \<Rightarrow> Inl err | Inr s' \<Rightarrow> run xs s')"

text \<open>The frame ids passed to \<open>RecordAccess\<close> in a sequence of calls.\<close>

fun recorded_frames :: "replacer_op list \<Rightarrow> frame_id_t list" where
  "recorded_frames [] = []"
| "recorded_frames (RecordAccessOp f # xs) = f # recorded_frames xs"
| "recorded_frames (_ # xs) = recorded_frames xs"

text \<open>
  The invariant behind the size bound: the flags form a map, only tracked frames are
  evictable, tracked frames come from \<open>A\<close>, no history is empty and \<open>K \<ge> 1\<close> (so
  \<open>Evict\<close> reads no vector out of bounds).
\<close>

definition lru_inv :: "frame_id_t set \<Rightarrow> LRUKReplacer \<Rightarrow> bool" where
  "lru_inv A s \<longleftrightarrow>
     distinct (map fst (evictable s)) \<and>
     (\<forall>f. map_of (evictable s) f = Some True \<longrightarrow> map_of (access_history s) f \<noteq> None) \<and>
     (\<forall>f. map_of (access_history s) f \<noteq> None \<longrightarrow> f \<in> A) \<and>
     (\<forall>e \<in> set (access_history s). snd e \<noteq> []) \<and>
     1 \<le> k_hist s"

section \<open>Extendible hash table (extendible\_hash\_table.cpp)\<close>

text \<open>
  The directory is a vector of shared pointers to buckets, and a bucket is changed
  through any of the pointers: the model has an explicit store \<open>heap\<close> from addresses
  to buckets, the directory holds addresses, and \<open>std::make_shared\<close> takes the next
  unused address \<open>next_addr\<close>.

  \<open>std::hash<K>\<close> is a parameter \<open>hash\<close> of every operation; its values are \<open>size_t\<close>,
  read as natural numbers. Depths are \<open>int\<close> in the source; they start at 0 and are
  only incremented, so they are natural numbers here, and the places where the source
  computes \<open>1 << depth\<close> in \<open>int\<close> carry the bound that keeps it defined.
\<close>

datatype ht_error = OutOfRange | SignedOverflow

record ('k, 'v) Bucket =
  b_size :: nat
  b_depth :: nat
  b_list :: "('k \<times> 'v) list"

record ('k, 'v) ExtendibleHashTable =
  global_depth :: nat
  bucket_size :: nat
  num_buckets :: int
  dir :: "nat list"
  heap :: "nat \<Rightarrow> ('k, 'v) Bucket"
  next_addr :: nat

subsection \<open>Bucket\<close>

definition Bucket_new :: "nat \<Rightarrow> nat \<Rightarrow> ('k, 'v) Bucket" where
  "Bucket_new array_size depth = \<lparr>b_size = array_size, b_depth = depth, b_list = []\<rparr>"

text \<open>
  Modelled from the spec: \<open>Bucket::IsFull\<close>, \<open>GetDepth\<close>, \<open>IncrementDepth\<close> and
  \<open>GetItems\<close> are defined in the header extendible\_hash\_table.h, which is not among
  the sources. The spec: a bucket holds at most \<open>bucket_capacity\<close> entries and an entry
  is appended if the bucket has room; a bucket has a local depth, which a split
  increments.
\<close>

definition IsFull :: "('k, 'v) Bucket \<Rightarrow> bool" where
  "IsFull b \<longleftrightarrow> b_size b \<le> length (b_list b)"

definition GetDepth :: "('k, 'v) Bucket \<Rightarrow> nat" where
  "GetDepth b = b_depth b"

definition IncrementDepth :: "('k, 'v) Bucket \<Rightarrow> ('k, 'v) Bucket" where
  "IncrementDepth b = b\<lparr>b_depth := b_depth b + 1\<rparr>"

definition GetItems :: "('k, 'v) Bucket \<Rightarrow> ('k \<times> 'v) list" where
  "GetItems b = b_list b"

text \<open>\<open>Bucket::Find\<close>: the value of the first item with the key.\<close>

definition Bucket_Find :: "'k \<Rightarrow> ('k, 'v) Bucket \<Rightarrow> 'v option" where
  "Bucket_Find key b = map_of (b_list b) key"

text \<open>\<open>Bucket::Remove\<close>: erases the first item with the key.\<close>

fun erase_first :: "'k \<Rightarrow> ('k \<times> 'v) list \<Rightarrow> ('k \<times> 'v) list" where
  "erase_first key [] = []"
| "erase_first key (item # items) =
     (if fst item = key then items else item # erase_first key items)"

definition Bucket_Remove :: "'k \<Rightarrow> ('k, 'v) Bucket \<Rightarrow> bool \<times> ('k, 'v) Bucket" where
  "Bucket_Remove key b =
     (if map_of (b_list b) key \<noteq> None then (True, b\<lparr>b_list := erase_first key (b_list b)\<rparr>)
      else (False, b))"

text \<open>
  \<open>Bucket::Insert\<close>: the first item with the key gets the value in place; otherwise
  the pair is appended unless the bucket is full.
\<close>

definition Bucket_Insert :: "'k \<Rightarrow> 'v \<Rightarrow> ('k, 'v) Bucket \<Rightarrow> bool \<times> ('k, 'v) Bucket" where
  "Bucket_Insert key value b =
     (if map_of (b_list b) key \<noteq> None
      then (True, b\<lparr>b_list := AList.update key value (b_list b)\<rparr>)
      else if IsFull b then (False, b)
      else (True, b\<lparr>b_list := b_list b @ [(key, value)]\<rparr>))"

subsection \<open>Table\<close>

text \<open>
  Modelled from the spec: the constructor in the source does not initialise
  \<open>num_buckets_\<close>; its initial value comes from the declaration in the header, which is
  not among the sources. The spec: a table is created with \<open>bucket_count = 1\<close>.
\<close>

definition num_buckets_init :: int where
  "num_buckets_init = 1"

definition ExtendibleHashTable_new :: "nat \<Rightarrow> ('k, 'v) ExtendibleHashTable" where
  "ExtendibleHashTable_new initial_bucket_size =
     \<lparr>global_depth = 0, bucket_size = initial_bucket_size, num_buckets = num_buckets_init,
      dir = [0],
      heap = (\<lambda>_. Bucket_new 0 0)(0 := Bucket_new initial_bucket_size 0),
      next_addr = 1\<rparr>"

text \<open>
  \<open>(1 << depth) - 1\<close> in \<open>int\<close>: for \<open>depth = 31\<close> the subtraction overflows and for
  larger depths the shift is undefined.
\<close>

definition low_mask :: "nat \<Rightarrow> ht_error + int" where
  "low_mask depth = (if depth \<le> 30 then Inr (2 ^ depth - 1) else Inl SignedOverflow)"

definition IndexOf ::
  "('k \<Rightarrow> nat) \<Rightarrow> ('k, 'v) ExtendibleHashTable \<Rightarrow> 'k \<Rightarrow> ht_error + nat" where
  "IndexOf hash t key =
     (case low_mask (global_depth t) of
        Inl err \<Rightarrow> Inl err
      | Inr m \<Rightarrow> Inr (hash key AND nat m))"

definition GetGlobalDepth :: "('k, 'v) ExtendibleHashTable \<Rightarrow> nat" where
  "GetGlobalDepth t = global_depth t"

definition GetLocalDepth :: "('k, 'v) ExtendibleHashTable \<Rightarrow> nat \<Rightarrow> nat" where
  "GetLocalDepth t dir_index = GetDepth (heap t (dir t ! dir_index))"

definition GetNumBuckets :: "('k, 'v) ExtendibleHashTable \<Rightarrow> int" where
  "GetNumBuckets t = num_buckets t"

text \<open>\<open>dir_.at(i)\<close> throws \<open>std::out_of_range\<close> when \<open>i\<close> is not below the length.\<close>

definition Find ::
  "('k \<Rightarrow> nat) \<Rightarrow> ('k, 'v) ExtendibleHashTable \<Rightarrow> 'k
     \<Rightarrow> ht_error + 'v option \<times> ('k, 'v) ExtendibleHashTable" where
  "Find hash t key =
     (case IndexOf hash t key of
        Inl err \<Rightarrow> Inl err
      | Inr index \<Rightarrow>
          if length (dir t) \<le> index then Inl OutOfRange
          else Inr (Bucket_Find key (heap t (dir t ! index)), t))"

definition Remove_key ::
  "('k \<Rightarrow> nat) \<Rightarrow> ('k, 'v) ExtendibleHashTable \<Rightarrow> 'k
     \<Rightarrow> ht_error + bool \<times> ('k, 'v) ExtendibleHashTable" where
  "Remove_key hash t key =
     (case IndexOf hash t key of
        Inl err \<Rightarrow> Inl err
      | Inr index \<Rightarrow>
          if length (dir t) \<le> index then Inl OutOfRange
          else if Bucket_Find key (heap t (dir t ! index)) = None then Inr (False, t)
          else Inr (True, t\<lparr>heap := (heap t)
                     (dir t ! index := snd (Bucket_Remove key (heap t (dir t ! index))))\<rparr>))"

text \<open>
  Directory doubling. \<open>int primary_dir_len = dir_.size()\<close> converts the length to a
  32-bit signed integer; the loop appends \<open>dir_.at(i)\<close> for \<open>0 \<le> i < primary_dir_len\<close>.
\<close>

definition expand_directory :: "('k, 'v) ExtendibleHashTable \<Rightarrow> ('k, 'v) ExtendibleHashTable" where
  "expand_directory t =
     (let primary_dir_len = sint (word_of_nat (length (dir t)) :: 32 word) in
      t\<lparr>global_depth := global_depth t + 1,
        dir := dir t @ take (nat primary_dir_len) (dir t)\<rparr>)"

text \<open>
  The loop over the copy \<open>origin_items\<close>: an item whose index does not end in
  \<open>origin_index\<close> is removed from the origin bucket and inserted into the new one.
  Both buckets are reached through their pointers, so the loop works on the store.
\<close>

fun redistribute ::
  "('k \<Rightarrow> nat) \<Rightarrow> ('k, 'v) ExtendibleHashTable \<Rightarrow> int \<Rightarrow> nat \<Rightarrow> nat \<Rightarrow> nat \<Rightarrow> ('k \<times> 'v) list
     \<Rightarrow> (nat \<Rightarrow> ('k, 'v) Bucket) \<Rightarrow> ht_error + (nat \<Rightarrow> ('k, 'v) Bucket)" where
  "redistribute hash t local_mask origin_index origin_bucket divide_bucket [] h = Inr h"
| "redistribute hash t local_mask origin_index origin_bucket divide_bucket (item # items) h =
     (case IndexOf hash t (fst item) of
        Inl err \<Rightarrow> Inl err
      | Inr i \<Rightarrow>
          if i AND nat local_mask \<noteq> origin_index
          then
            (let h1 = h(origin_bucket := snd (Bucket_Remove (fst item) (h origin_bucket)));
                 h2 = h1(divide_bucket :=
                        snd (Bucket_Insert (fst item) (snd item) (h1 divide_bucket)))
             in redistribute hash t local_mask origin_index origin_bucket divide_bucket items h2)
          else redistribute hash t local_mask origin_index origin_bucket divide_bucket items h)"

text \<open>The loop over the directory that redirects the slots of the two buckets.\<close>

definition remap_directory :: "int \<Rightarrow> nat \<Rightarrow> nat \<Rightarrow> nat \<Rightarrow> nat \<Rightarrow> nat list \<Rightarrow> nat list" where
  "remap_directory local_mask origin_index divide_index origin_bucket divide_bucket d =
     map (\<lambda>dir_index.
            if dir_index AND nat local_mask = origin_index then origin_bucket
            else if dir_index AND nat local_mask = divide_index then divide_bucket
            else d ! dir_index)
         [0..<length d]"

text \<open>
  The split of the bucket at \<open>index\<close>, from \<open>IncrementDepth\<close> to the rewriting of
  the directory. \<open>bucket\<close> is the pointer loaded at the top of the loop body.
  \<open>~local_mask >> 1\<close> is computed in \<open>int\<close> (an arithmetic shift) and meets
  \<open>origin_index\<close> sign-extended.
\<close>

definition split_at ::
  "('k \<Rightarrow> nat) \<Rightarrow> ('k, 'v) ExtendibleHashTable \<Rightarrow> nat \<Rightarrow> nat
     \<Rightarrow> ht_error + ('k, 'v) ExtendibleHashTable" where
  "split_at hash t1 index bucket =
     (let t2 = t1\<lparr>heap := (heap t1)(bucket := IncrementDepth (heap t1 bucket))\<rparr>
      in case low_mask (GetDepth (heap t2 bucket)) of
           Inl err \<Rightarrow> Inl err
         | Inr local_mask \<Rightarrow>
             (let origin_index = index AND nat local_mask;
                  divide_index =
                    nat ((int origin_index XOR drop_bit 1 (NOT local_mask)) AND local_mask);
                  origin_bucket = bucket;
                  divide_bucket = next_addr t2;
                  t3 = t2\<lparr>heap := (heap t2)(divide_bucket :=
                                  Bucket_new (bucket_size t2) (GetDepth (heap t2 bucket))),
                          next_addr := next_addr t2 + 1,
                          num_buckets := num_buckets t2 + 1\<rparr>;
                  origin_items = GetItems (heap t3 origin_bucket)
              in case redistribute hash t3 local_mask origin_index origin_bucket divide_bucket
                        origin_items (heap t3) of
                   Inl err \<Rightarrow> Inl err
                 | Inr h \<Rightarrow>
                     Inr (t3\<lparr>heap := h,
                             dir := remap_directory local_mask origin_index divide_index
                                      origin_bucket divide_bucket (dir t3)\<rparr>)))"

text \<open>
  One pass through the body of the \<open>while\<close> loop of \<open>Insert\<close> after the bucket at
  \<open>index\<close> has refused the pair: directory doubling if the bucket's depth is the
  global depth, then the split.
\<close>

definition split_bucket ::
  "('k \<Rightarrow> nat) \<Rightarrow> ('k, 'v) ExtendibleHashTable \<Rightarrow> nat \<Rightarrow> ht_error + ('k, 'v) ExtendibleHashTable" where
  "split_bucket hash t index =
     (let bucket = dir t ! index;
          t1 = (if GetDepth (heap t bucket) = global_depth t then expand_directory t else t)
      in split_at hash t1 index bucket)"

text \<open>The number of splits the bucket of \<open>key\<close> can still take before \<open>1 << depth\<close> overflows.\<close>

definition splits_left :: "('k \<Rightarrow> nat) \<Rightarrow> ('k, 'v) ExtendibleHashTable \<Rightarrow> 'k \<Rightarrow> nat" where
  "splits_left hash t key =
     (case IndexOf hash t key of
        Inl err \<Rightarrow> 0
      | Inr index \<Rightarrow>
          if length (dir t) \<le> index then 0
          else 31 - GetDepth (heap t (dir t ! index)))"

function Insert ::
  "('k \<Rightarrow> nat) \<Rightarrow> ('k, 'v) ExtendibleHashTable \<Rightarrow> 'k \<Rightarrow> 'v
     \<Rightarrow> ht_error + ('k, 'v) ExtendibleHashTable" where
  "Insert hash t key value =
     (case IndexOf hash t key of
        Inl err \<Rightarrow> Inl err
      | Inr index \<Rightarrow>
          if length (dir t) \<le> index then Inl OutOfRange
          else
            (let r = Bucket_Insert key value (heap t (dir t ! index)) in
             if fst r then Inr (t\<lparr>heap := (heap t)(dir t ! index := snd r)\<rparr>)
             else
               (case split_bucket hash t index of
                  Inl err \<Rightarrow> Inl err
                | Inr t' \<Rightarrow> Insert hash t' key value)))"
  by pat_completeness auto

subsection \<open>Termination of the loop of Insert\<close>

text \<open>
  Every pass through the loop body leaves the bucket that the key indexes one level
  deeper, and a depth of 31 ends the call with the overflow; so the loop of the model
  ends in every state. The lemmas are about the bit operations of the split and about
  the state after one pass.
\<close>

lemma nat_low_mask: "nat (2 ^ d - 1) = (2 ^ d - 1 :: nat)"
  by (simp add: nat_diff_distrib' nat_power_eq)

lemma and_low_mask: "(x::nat) AND nat (2 ^ d - 1) = x mod 2 ^ d"
proof -
  have "nat (2 ^ d - 1) = (mask d :: nat)"
    by (simp add: nat_low_mask mask_eq_exp_minus_1)
  then show ?thesis
    by (simp add: take_bit_eq_mod flip: take_bit_eq_mask)
qed

lemma divide_index_flip:
  assumes "oi < 2 ^ Suc d"
  shows "nat ((int oi XOR drop_bit 1 (NOT (2 ^ Suc d - 1))) AND (2 ^ Suc d - 1)) = flip_bit d oi"
proof -
  have m: "(2 ^ Suc d - 1 :: int) = mask (Suc d)"
    by (simp only: mask_eq_exp_minus_1)
  have t: "take_bit (Suc d) oi = oi"
    using assms by (simp only: take_bit_nat_eq_self)
  have "(int (take_bit (Suc d) oi) XOR drop_bit 1 (NOT (mask (Suc d)))) AND mask (Suc d) =
          int (flip_bit d (take_bit (Suc d) oi))"
    by (rule bit_eqI) (auto simp add: bit_simps)
  then show ?thesis by (simp only: m nat_int t)
qed

lemma divide_index_flip':
  "oi < 2 ^ Suc d \<Longrightarrow>
     nat ((int oi XOR drop_bit (Suc 0) (NOT (2 ^ Suc d - 1))) AND (2 ^ Suc d - 1)) = flip_bit d oi"
  using divide_index_flip [of oi d] by simp

lemma flip_bit_props:
  fixes oi :: nat
  assumes "oi < 2 ^ Suc d"
  shows "flip_bit d oi < 2 ^ Suc d" "flip_bit d oi mod 2 ^ d = oi mod 2 ^ d" "flip_bit d oi \<noteq> oi"
proof -
  have t: "take_bit (Suc d) oi = oi"
    using assms by (simp only: take_bit_nat_eq_self)
  have "take_bit (Suc d) (flip_bit d (take_bit (Suc d) oi)) = flip_bit d (take_bit (Suc d) oi)"
    by (rule bit_eqI) (auto simp add: bit_simps)
  then show "flip_bit d oi < 2 ^ Suc d"
    by (metis t take_bit_nat_less_exp)
  have "take_bit d (flip_bit d oi) = take_bit d oi"
    by (rule bit_eqI) (auto simp add: bit_simps)
  then show "flip_bit d oi mod 2 ^ d = oi mod 2 ^ d"
    by (simp add: take_bit_eq_mod)
  have "bit (flip_bit d oi) d \<noteq> bit oi d"
    by (simp add: bit_flip_bit_iff)
  then show "flip_bit d oi \<noteq> oi"
    by auto
qed

lemma two_lifts:
  fixes a b c :: nat
  assumes "a < 2 ^ Suc d" "b < 2 ^ Suc d" "c < 2 ^ Suc d"
    "a mod 2 ^ d = c mod 2 ^ d" "b mod 2 ^ d = c mod 2 ^ d" "a \<noteq> b"
  shows "c = a \<or> c = b"
proof -
  have h: "x = x mod 2 ^ d \<or> x = x mod 2 ^ d + 2 ^ d" if "x < 2 ^ Suc d" for x :: nat
  proof (cases "x < 2 ^ d")
    case True
    then show ?thesis by simp
  next
    case False
    then have "x - 2 ^ d < 2 ^ d" using that by simp
    then have "x mod 2 ^ d = x - 2 ^ d"
      using False by (metis le_mod_geq mod_less not_less)
    then show ?thesis using False by simp
  qed
  from h [OF assms(1)] h [OF assms(2)] h [OF assms(3)] assms(4,5,6) show ?thesis
    by auto
qed

lemma low_mask_Inr: "low_mask d = Inr m \<longleftrightarrow> d \<le> 30 \<and> m = 2 ^ d - 1"
  by (auto simp: low_mask_def)

lemma IndexOf_Inr:
  "IndexOf hash t key = Inr i \<longleftrightarrow> global_depth t \<le> 30 \<and> i = hash key mod 2 ^ global_depth t"
  by (auto simp: IndexOf_def low_mask_def and_low_mask)

lemma Bucket_Remove_fields [simp]:
  "b_depth (snd (Bucket_Remove k b)) = b_depth b" "b_size (snd (Bucket_Remove k b)) = b_size b"
  by (simp_all add: Bucket_Remove_def)

lemma Bucket_Insert_fields [simp]:
  "b_depth (snd (Bucket_Insert k v b)) = b_depth b" "b_size (snd (Bucket_Insert k v b)) = b_size b"
  by (simp_all add: Bucket_Insert_def)

lemma redistribute_fields:
  "redistribute hash t lm oi ob db items h = Inr h' \<Longrightarrow>
     b_depth (h' x) = b_depth (h x) \<and> b_size (h' x) = b_size (h x)"
proof (induction items arbitrary: h)
  case Nil
  then show ?case by simp
next
  case (Cons item items)
  then show ?case
    by (fastforce simp: Let_def split: sum.splits if_splits)
qed

text \<open>The state after a split, read off the definition.\<close>

lemma split_bucket_Inr:
  assumes "split_bucket hash t index = Inr t'"
  shows "b_depth (heap t (dir t ! index)) < 30"
    and "global_depth t' =
           (if b_depth (heap t (dir t ! index)) = global_depth t then Suc (global_depth t)
            else global_depth t)"
    and "dir t' =
           remap_directory (2 ^ Suc (b_depth (heap t (dir t ! index))) - 1)
             (index mod 2 ^ Suc (b_depth (heap t (dir t ! index))))
             (flip_bit (b_depth (heap t (dir t ! index)))
                (index mod 2 ^ Suc (b_depth (heap t (dir t ! index)))))
             (dir t ! index) (next_addr t)
             (if b_depth (heap t (dir t ! index)) = global_depth t then dir (expand_directory t)
              else dir t)"
    and "next_addr t' = Suc (next_addr t)"
    and "num_buckets t' = num_buckets t + 1"
    and "bucket_size t' = bucket_size t"
    and "b_depth (heap t' x) =
           (if x = dir t ! index \<or> x = next_addr t then Suc (b_depth (heap t (dir t ! index)))
            else b_depth (heap t x))"
  using assms
  by (auto simp: split_bucket_def split_at_def Let_def GetDepth_def IncrementDepth_def low_mask_Inr
                 and_low_mask divide_index_flip' expand_directory_def Bucket_new_def GetItems_def
           simp del: power_Suc
           dest!: redistribute_fields [where x = x]
           split: sum.splits if_splits)

lemma length_remap_directory [simp]:
  "length (remap_directory lm oi di ob db d) = length d"
  by (simp add: remap_directory_def)

lemma nth_remap_directory:
  "i < length d \<Longrightarrow>
     remap_directory (2 ^ n - 1) oi di ob db d ! i =
       (if i mod 2 ^ n = oi then ob else if i mod 2 ^ n = di then db else d ! i)"
  by (simp add: remap_directory_def and_low_mask)

lemma mod_exp_mod_exp: "m \<le> n \<Longrightarrow> (x::nat) mod 2 ^ n mod 2 ^ m = x mod 2 ^ m"
  by (simp add: mod_mod_cancel le_imp_power_dvd)

text \<open>After a split the bucket that \<open>key\<close> indexes is one level deeper.\<close>

lemma split_bucket_target_depth:
  assumes s: "split_bucket hash t index = Inr t'"
    and i: "IndexOf hash t key = Inr index"
    and i': "IndexOf hash t' key = Inr i'"
    and l: "i' < length (dir t')"
  shows "b_depth (heap t' (dir t' ! i')) = Suc (b_depth (heap t (dir t ! index)))"
proof -
  let ?d = "b_depth (heap t (dir t ! index))"
  let ?oi = "index mod 2 ^ Suc ?d"
  let ?c = "i' mod 2 ^ Suc ?d"
  have ix: "index = hash key mod 2 ^ global_depth t" and ix': "i' = hash key mod 2 ^ global_depth t'"
    using i i' by (simp_all add: IndexOf_Inr)
  have g: "global_depth t' = (if ?d = global_depth t then Suc (global_depth t) else global_depth t)"
    using split_bucket_Inr(2) [OF s] .
  have "i' mod 2 ^ ?d = index mod 2 ^ ?d"
    by (simp add: ix ix' g mod_exp_mod_exp del: power_Suc)
  then have m: "?oi mod 2 ^ ?d = ?c mod 2 ^ ?d"
    by (simp add: mod_exp_mod_exp del: power_Suc)
  have o: "?oi < 2 ^ Suc ?d" and c: "?c < 2 ^ Suc ?d" by simp_all
  from two_lifts [OF o flip_bit_props(1) [OF o] c m _ flip_bit_props(3) [OF o, symmetric]]
    flip_bit_props(2) [OF o] m
  have "?c = ?oi \<or> ?c = flip_bit ?d ?oi" by simp
  moreover have "i' < length (if ?d = global_depth t then dir (expand_directory t) else dir t)"
    using l by (simp add: split_bucket_Inr(3) [OF s])
  ultimately have "dir t' ! i' = dir t ! index \<or> dir t' ! i' = next_addr t"
    by (auto simp add: split_bucket_Inr(3) [OF s] nth_remap_directory simp del: power_Suc)
  then show ?thesis
    by (auto simp add: split_bucket_Inr(7) [OF s])
qed

termination Insert
proof (relation "measure (\<lambda>(hash, t, key, value). splits_left hash t key)", goal_cases)
  case 1
  show ?case by simp
next
  case (2 hash t key "value" index r t')
  have d: "b_depth (heap t (dir t ! index)) < 30"
    using split_bucket_Inr(1) [OF 2(5)] .
  have "splits_left hash t' key < splits_left hash t key"
  proof (cases "IndexOf hash t' key")
    case (Inl err)
    then show ?thesis using 2(1,2) d by (simp add: splits_left_def GetDepth_def)
  next
    case (Inr i')
    show ?thesis
    proof (cases "i' < length (dir t')")
      case True
      from split_bucket_target_depth [OF 2(5) 2(1) Inr True] d 2(1,2) Inr True
      show ?thesis by (simp add: splits_left_def GetDepth_def)
    next
      case False
      then show ?thesis using 2(1,2) d Inr by (simp add: splits_left_def GetDepth_def)
    qed
  qed
  then show ?case by simp
qed

text \<open>The recursion equation is used one step at a time, never as a rewrite rule.\<close>

declare Insert.simps [simp del]

subsection \<open>Sequences of insertions, and what the tests observe\<close>

fun Insert_seq ::
  "('k \<Rightarrow> nat) \<Rightarrow> ('k, 'v) ExtendibleHashTable \<Rightarrow> ('k \<times> 'v) list
     \<Rightarrow> ht_error + ('k, 'v) ExtendibleHashTable" where
  "Insert_seq hash t [] = Inr t"
| "Insert_seq hash t (kv # kvs) =
     (case Insert hash t (fst kv) (snd kv) of
        Inl err \<Rightarrow> Inl err
      | Inr t' \<Rightarrow> Insert_seq hash t' kvs)"

definition Find_after ::
  "('k \<Rightarrow> nat) \<Rightarrow> 'k \<Rightarrow> ht_error + ('k, 'v) ExtendibleHashTable \<Rightarrow> ht_error + 'v option" where
  "Find_after hash key r =
     (case r of Inl err \<Rightarrow> Inl err | Inr t \<Rightarrow> map_sum id fst (Find hash t key))"

subsection \<open>Invariants and reachable states\<close>

text \<open>
  Directory-bucket coherence, as the specification words it: for every slot \<open>s\<close> and
  every entry of the bucket \<open>dir[s]\<close>, the hash of the key and \<open>s\<close> agree under the
  mask of the bucket's local depth.
\<close>

definition coherent :: "('k \<Rightarrow> nat) \<Rightarrow> ('k, 'v) ExtendibleHashTable \<Rightarrow> bool" where
  "coherent hash t \<longleftrightarrow>
     (\<forall>s < length (dir t). \<forall>e \<in> set (b_list (heap t (dir t ! s))).
        hash (fst e) AND (2 ^ GetLocalDepth t s - 1) = s AND (2 ^ GetLocalDepth t s - 1))"

text \<open>
  What holds of one directory slot in every state the operations build: its bucket is
  allocated, not deeper than the directory, of the table's capacity and with distinct
  keys; the slots that share the bucket agree with the slot in the low \<open>depth\<close> bits;
  so do the hashes of the bucket's keys.
\<close>

definition slot_inv :: "('k \<Rightarrow> nat) \<Rightarrow> ('k, 'v) ExtendibleHashTable \<Rightarrow> nat \<Rightarrow> bool" where
  "slot_inv hash t s \<longleftrightarrow>
     dir t ! s < next_addr t \<and>
     b_depth (heap t (dir t ! s)) \<le> global_depth t \<and>
     b_size (heap t (dir t ! s)) = bucket_size t \<and>
     distinct (map fst (b_list (heap t (dir t ! s)))) \<and>
     (\<forall>s' < length (dir t). dir t ! s' = dir t ! s \<longrightarrow>
        s' mod 2 ^ b_depth (heap t (dir t ! s)) = s mod 2 ^ b_depth (heap t (dir t ! s))) \<and>
     (\<forall>e \<in> set (b_list (heap t (dir t ! s))).
        hash (fst e) mod 2 ^ b_depth (heap t (dir t ! s)) =
          s mod 2 ^ b_depth (heap t (dir t ! s)))"

definition table_inv :: "('k \<Rightarrow> nat) \<Rightarrow> ('k, 'v) ExtendibleHashTable \<Rightarrow> bool" where
  "table_inv hash t \<longleftrightarrow>
     global_depth t \<le> 30 \<and> length (dir t) = 2 ^ global_depth t \<and> 1 \<le> bucket_size t \<and>
     (\<forall>s < length (dir t). slot_inv hash t s)"

text \<open>
  The states of a table: constructed with a capacity of at least one entry per bucket
  (the constructor's documented parameter range), then changed by calls that return.
\<close>

inductive reachable :: "('k \<Rightarrow> nat) \<Rightarrow> ('k, 'v) ExtendibleHashTable \<Rightarrow> bool" for hash where
  constructed: "1 \<le> n \<Longrightarrow> reachable hash (ExtendibleHashTable_new n)"
| after_Insert: "reachable hash t \<Longrightarrow> Insert hash t key value = Inr t' \<Longrightarrow> reachable hash t'"
| after_Remove: "reachable hash t \<Longrightarrow> Remove_key hash t key = Inr (b, t') \<Longrightarrow> reachable hash t'"
| after_Find: "reachable hash t \<Longrightarrow> Find hash t key = Inr (r, t') \<Longrightarrow> reachable hash t'"

text \<open>The keys stored in the buckets of the directory, slot by slot.\<close>

definition stored_keys :: "('k, 'v) ExtendibleHashTable \<Rightarrow> 'k list" where
  "stored_keys t = concat (map (\<lambda>a. map fst (b_list (heap t a))) (dir t))"

text \<open>
  \<open>std::hash<int>\<close> of libstdc++, for the instance \<open>ExtendibleHashTable<int, int>\<close>:
  the key converted to \<open>size_t\<close>.
\<close>

definition std_hash_int :: "int \<Rightarrow> nat" where
  "std_hash_int x = nat (x mod 2 ^ 64)"

section \<open>Properties of the LRU-K replacer\<close>

subsection \<open>Association lists as maps\<close>

lemma count_update_clear:
  "map_of ev f = Some True \<Longrightarrow>
     Suc (length (filter snd (AList.update f False ev))) = length (filter snd ev)"
  by (induction ev) auto

lemma count_update_set:
  "map_of ev f \<noteq> Some True \<Longrightarrow>
     length (filter snd (AList.update f True ev)) = Suc (length (filter snd ev))"
  by (induction ev) auto

lemma count_update_same:
  "map_of ev f \<noteq> Some True \<Longrightarrow>
     length (filter snd (AList.update f False ev)) = length (filter snd ev)"
  by (induction ev) auto

lemma map_of_evictable_at:
  "map_of (snd (evictable_at ev f)) g = Some True \<longleftrightarrow> map_of ev g = Some True"
  by (auto simp: evictable_at_def update_conv' split: option.splits)

lemma distinct_evictable_at:
  "distinct (map fst ev) \<Longrightarrow> distinct (map fst (snd (evictable_at ev f)))"
  by (auto simp: evictable_at_def distinct_update split: option.splits)

lemma set_update_subset: "set (AList.update k v al) \<subseteq> insert (k, v) (set al)"
  by (induction al) auto

lemma set_delete_subset: "set (AList.delete k al) \<subseteq> set al"
  by (induction al) auto

lemma lru_inv_new: "1 \<le> k \<Longrightarrow> lru_inv A (LRUKReplacer_new n k)"
  by (simp add: lru_inv_def LRUKReplacer_new_def)

lemma lru_inv_RecordAccess:
  assumes "lru_inv A s" "f \<in> A"
  shows "lru_inv A (RecordAccess f s)"
proof -
  have "\<forall>e \<in> set (AList.update f (h @ [current_timestamp s]) (access_history s)). snd e \<noteq> []" for h
    using assms(1) set_update_subset [of f "h @ [current_timestamp s]" "access_history s"]
    by (auto simp: lru_inv_def)
  then show ?thesis
    using assms by (auto simp: lru_inv_def RecordAccess_def update_conv' Let_def)
qed

lemma lru_inv_SetEvictable:
  assumes "lru_inv A s"
  shows "lru_inv A (SetEvictable f b s)"
proof (cases "map_of (access_history s) f = None")
  case True
  then show ?thesis using assms by (simp add: SetEvictable_def)
next
  case False
  obtain e ev where ea: "evictable_at (evictable s) f = (e, ev)" by force
  have d: "distinct (map fst ev)"
    using distinct_evictable_at [of "evictable s" f] assms ea by (simp add: lru_inv_def)
  have m: "\<And>g. map_of ev g = Some True \<longleftrightarrow> map_of (evictable s) g = Some True"
    using map_of_evictable_at [of "evictable s" f] ea by simp
  show ?thesis
    using assms False d m
    by (auto simp: SetEvictable_def ea lru_inv_def distinct_update update_conv'
             simp del: map_of_eq_Some_iff)
qed

lemma lru_inv_Remove:
  assumes "lru_inv A s"
  shows "lru_inv A (Remove f s)"
proof (cases "map_of (access_history s) f = None")
  case True
  then show ?thesis using assms by (simp add: Remove_def)
next
  case False
  obtain e ev where ea: "evictable_at (evictable s) f = (e, ev)" by force
  have d: "distinct (map fst ev)"
    using distinct_evictable_at [of "evictable s" f] assms ea by (simp add: lru_inv_def)
  have m: "\<And>g. map_of ev g = Some True \<longleftrightarrow> map_of (evictable s) g = Some True"
    using map_of_evictable_at [of "evictable s" f] ea by simp
  have n: "\<forall>e \<in> set (AList.delete f (access_history s)). snd e \<noteq> []"
    using assms set_delete_subset [of f "access_history s"] by (auto simp: lru_inv_def)
  show ?thesis
    using assms False d m n
    by (auto simp: Remove_def ea lru_inv_def distinct_update update_conv' delete_conv'
             simp del: map_of_eq_Some_iff)
qed

lemma Evict_step_ok:
  assumes "snd entry \<noteq> []" "1 \<le> k"
  shows "\<exists>vars'. Evict_step k now entry (vars, ev) = Inr (vars', snd (evictable_at ev (fst entry)))"
  using assms
  by (cases entry; cases "evictable_at ev (fst entry)")
     (auto simp: Evict_step_def Let_def)

lemma Evict_loop_ok:
  assumes "\<forall>e \<in> set entries. snd e \<noteq> []" "1 \<le> k" "distinct (map fst ev)"
  shows "\<exists>vars' ev'. Evict_loop k now entries (vars, ev) = Inr (vars', ev') \<and>
           distinct (map fst ev') \<and>
           (\<forall>g. map_of ev' g = Some True \<longleftrightarrow> map_of ev g = Some True)"
  using assms
proof (induction entries arbitrary: vars ev)
  case Nil
  then show ?case by simp
next
  case (Cons entry entries)
  from Cons.prems obtain vars1 where
    s: "Evict_step k now entry (vars, ev) = Inr (vars1, snd (evictable_at ev (fst entry)))"
    using Evict_step_ok [of entry k now vars ev] by auto
  have d: "distinct (map fst (snd (evictable_at ev (fst entry))))"
    using Cons.prems by (simp add: distinct_evictable_at)
  from Cons.IH [OF _ Cons.prems(2) d, of vars1] Cons.prems(1)
  show ?case by (auto simp: s map_of_evictable_at)
qed

lemma lru_inv_Evict:
  assumes "lru_inv A s"
  shows "\<exists>r s'. Evict s = Inr (r, s') \<and> lru_inv A s'"
proof -
  from assms obtain vars ev where
    l: "Evict_loop (k_hist s) (current_timestamp s) (access_history s)
          (evict_vars_init, evictable s) = Inr (vars, ev)"
    and d: "distinct (map fst ev)"
    and m: "\<And>g. map_of ev g = Some True \<longleftrightarrow> map_of (evictable s) g = Some True"
    using Evict_loop_ok [of "access_history s" "k_hist s" "evictable s"
                            "current_timestamp s" evict_vars_init]
    by (auto simp: lru_inv_def)
  have n: "\<forall>e \<in> set (AList.delete f (access_history s)). snd e \<noteq> []" for f
    using assms set_delete_subset [of f "access_history s"] by (auto simp: lru_inv_def)
  show ?thesis
    using assms d m n
    by (auto simp: Evict_def l lru_inv_def distinct_update update_conv' delete_conv'
             simp del: map_of_eq_Some_iff)
qed

lemma lru_inv_run:
  "lru_inv A s \<Longrightarrow> set (recorded_frames ops) \<subseteq> A \<Longrightarrow> \<exists>s'. run ops s = Inr s' \<and> lru_inv A s'"
proof (induction ops arbitrary: s)
  case Nil
  then show ?case by simp
next
  case (Cons x ops)
  have "\<exists>s1. apply_op x s = Inr s1 \<and> lru_inv A s1"
  proof (cases x)
    case (RecordAccessOp f)
    then show ?thesis using Cons.prems by (simp add: lru_inv_RecordAccess)
  next
    case (SetEvictableOp f b)
    then show ?thesis using Cons.prems by (simp add: lru_inv_SetEvictable)
  next
    case (RemoveOp f)
    then show ?thesis using Cons.prems by (simp add: lru_inv_Remove)
  next
    case EvictOp
    then show ?thesis using lru_inv_Evict [OF Cons.prems(1)] by auto
  qed
  then obtain s1 where a: "apply_op x s = Inr s1" and i: "lru_inv A s1" by blast
  have "set (recorded_frames ops) \<subseteq> A"
    using Cons.prems(2) by (cases x) auto
  from Cons.IH [OF i this] show ?case by (simp add: a)
qed

lemma Size_le_card:
  assumes "lru_inv A s" "finite A"
  shows "Size s \<le> card A"
proof -
  have d: "distinct (map fst (filter snd (evictable s)))"
    using assms(1) by (simp add: lru_inv_def distinct_map_filter)
  have "fst ` set (filter snd (evictable s)) \<subseteq> A"
    using assms(1) by (force simp: lru_inv_def)
  then have "card (fst ` set (filter snd (evictable s))) \<le> card A"
    using assms(2) by (simp add: card_mono)
  moreover have "card (fst ` set (filter snd (evictable s))) = length (filter snd (evictable s))"
    using distinct_card [OF d] by simp
  ultimately show ?thesis by (simp add: Size_def)
qed

lemma recorded_frames_take: "set (recorded_frames (take m ops)) \<subseteq> set (recorded_frames ops)"
proof (induction ops arbitrary: m)
  case Nil
  then show ?case by simp
next
  case (Cons x ops)
  show ?case using Cons.IH by (cases m; cases x) auto
qed


subsection \<open>SetEvictable and Remove\<close>

text \<open>
  Claim C7. For every replacer state and every frame \<open>f\<close> that is not tracked,
  \<open>SetEvictable f flag\<close> changes nothing, for either value of the flag: the state is
  the same, so \<open>Size()\<close> is unchanged, \<open>f\<close> is still untracked, and every frame's
  history and evictable status are what they were.
\<close>

theorem SetEvictable_untracked:
  assumes "\<not> tracked s f"
  shows "SetEvictable f flag s = s \<and>
         Size (SetEvictable f flag s) = Size s \<and>
         \<not> tracked (SetEvictable f flag s) f \<and>
         (\<forall>g. hist (SetEvictable f flag s) g = hist s g \<and>
              is_evictable (SetEvictable f flag s) g = is_evictable s g)"
proof -
  have "SetEvictable f flag s = s"
    using assms by (simp add: SetEvictable_def tracked_def)
  then show ?thesis using assms by simp
qed

theorem SetEvictable_untracked_witness:
  "\<not> tracked (RecordAccess 1 (LRUKReplacer_new 3 2)) 5 \<and>
   SetEvictable 5 True (RecordAccess 1 (LRUKReplacer_new 3 2)) =
     RecordAccess 1 (LRUKReplacer_new 3 2) \<and>
   Size (SetEvictable 5 True (RecordAccess 1 (LRUKReplacer_new 3 2))) = 0"
proof -
  have u: "\<not> tracked (RecordAccess 1 (LRUKReplacer_new 3 2)) 5"
    by (simp add: tracked_def RecordAccess_def LRUKReplacer_new_def)
  have "Size (RecordAccess 1 (LRUKReplacer_new 3 2)) = 0"
    by (simp add: Size_def RecordAccess_def LRUKReplacer_new_def)
  then show ?thesis
    using u SetEvictable_untracked [OF u, of True] by simp
qed

text \<open>
  Claim C8. \<open>Remove f\<close> leaves what can be observed (\<open>Size()\<close>, every history, every
  evictable flag) unchanged unless \<open>f\<close> is tracked and evictable. When \<open>f\<close> is tracked
  and evictable, its history is erased, \<open>f\<close> is untracked and not evictable afterwards,
  \<open>Size()\<close> has gone down by exactly one, and every other frame is as before.
\<close>

theorem Remove_effect:
  "(\<not> (tracked s f \<and> is_evictable s f) \<longrightarrow>
      Size (Remove f s) = Size s \<and>
      (\<forall>g. hist (Remove f s) g = hist s g \<and> is_evictable (Remove f s) g = is_evictable s g)) \<and>
   (tracked s f \<and> is_evictable s f \<longrightarrow>
      hist (Remove f s) f = None \<and> \<not> tracked (Remove f s) f \<and> \<not> is_evictable (Remove f s) f \<and>
      Size (Remove f s) + 1 = Size s \<and>
      (\<forall>g. g \<noteq> f \<longrightarrow> hist (Remove f s) g = hist s g \<and>
                       is_evictable (Remove f s) g = is_evictable s g))"
proof (intro conjI impI)
  assume a: "\<not> (tracked s f \<and> is_evictable s f)"
  show "Size (Remove f s) = Size s"
    using a
    by (auto simp: Remove_def Size_def tracked_def is_evictable_def evictable_at_def
                   count_update_same split: option.splits prod.splits)
  show "\<forall>g. hist (Remove f s) g = hist s g \<and> is_evictable (Remove f s) g = is_evictable s g"
    using a
    by (auto simp: Remove_def hist_def tracked_def is_evictable_def evictable_at_def update_conv'
             split: option.splits prod.splits)
next
  assume a: "tracked s f \<and> is_evictable s f"
  then have t: "map_of (access_history s) f \<noteq> None" and e: "map_of (evictable s) f = Some True"
    by (simp_all add: tracked_def is_evictable_def)
  have r: "Remove f s = s\<lparr>access_history := AList.delete f (access_history s),
                evictable := AList.update f False (evictable s),
                curr_size := curr_size s - 1\<rparr>"
    using t e by (auto simp: Remove_def evictable_at_def)
  show "hist (Remove f s) f = None" by (simp add: r hist_def delete_conv')
  show "\<not> tracked (Remove f s) f" by (simp add: r tracked_def delete_conv')
  show "\<not> is_evictable (Remove f s) f" by (simp add: r is_evictable_def update_conv')
  show "Size (Remove f s) + 1 = Size s"
    using count_update_clear [OF e] by (simp add: r Size_def)
  show "\<forall>g. g \<noteq> f \<longrightarrow> hist (Remove f s) g = hist s g \<and>
                       is_evictable (Remove f s) g = is_evictable s g"
    by (simp add: r hist_def is_evictable_def update_conv' delete_conv')
qed

theorem Remove_effect_witness:
  "tracked (SetEvictable 1 True (RecordAccess 1 (LRUKReplacer_new 3 2))) 1 \<and>
   is_evictable (SetEvictable 1 True (RecordAccess 1 (LRUKReplacer_new 3 2))) 1 \<and>
   hist (Remove 1 (SetEvictable 1 True (RecordAccess 1 (LRUKReplacer_new 3 2)))) 1 = None \<and>
   Size (Remove 1 (SetEvictable 1 True (RecordAccess 1 (LRUKReplacer_new 3 2)))) + 1 =
     Size (SetEvictable 1 True (RecordAccess 1 (LRUKReplacer_new 3 2))) \<and>
   \<not> is_evictable (RecordAccess 1 (LRUKReplacer_new 3 2)) 1 \<and>
   Size (Remove 1 (RecordAccess 1 (LRUKReplacer_new 3 2))) =
     Size (RecordAccess 1 (LRUKReplacer_new 3 2)) \<and>
   hist (Remove 1 (RecordAccess 1 (LRUKReplacer_new 3 2))) 1 = Some [0]"
proof -
  let ?p = "RecordAccess 1 (LRUKReplacer_new 3 2)"
  let ?s = "SetEvictable 1 True ?p"
  have t: "tracked ?s 1" and e: "is_evictable ?s 1"
    by (simp_all add: tracked_def is_evictable_def SetEvictable_def RecordAccess_def
                      LRUKReplacer_new_def evictable_at_def)
  have n: "\<not> is_evictable ?p 1"
    by (simp add: is_evictable_def RecordAccess_def LRUKReplacer_new_def)
  have h: "hist ?p 1 = Some [0]"
    by (simp add: hist_def RecordAccess_def LRUKReplacer_new_def)
  show ?thesis
    using t e n h Remove_effect [of ?s 1] Remove_effect [of ?p 1] by simp
qed

subsection \<open>The size bound\<close>


text \<open>
  Claim C6 as stated fails: nothing in the replacer reads \<open>replacer_size_\<close>, and
  \<open>RecordAccess\<close> accepts any frame id. With capacity 1, two recorded frames that are
  both made evictable give \<open>Size() = 2\<close>.
\<close>

theorem Size_exceeds_capacity:
  "map_sum id Size
     (run [RecordAccessOp 1, RecordAccessOp 2, SetEvictableOp 1 True, SetEvictableOp 2 True]
        (LRUKReplacer_new 1 2)) = Inr 2 \<and>
   map_sum id replacer_size
     (run [RecordAccessOp 1, RecordAccessOp 2, SetEvictableOp 1 True, SetEvictableOp 2 True]
        (LRUKReplacer_new 1 2)) = Inr 1"
  by (simp add: Size_def RecordAccess_def SetEvictable_def evictable_at_def LRUKReplacer_new_def)

text \<open>
  Claim C6, amended. For a replacer constructed with capacity \<open>n\<close> and \<open>K \<ge> 1\<close>, and
  every sequence of \<open>RecordAccess\<close>, \<open>SetEvictable\<close>, \<open>Remove\<close> and \<open>Evict\<close> calls in
  which at most \<open>n\<close> distinct frame ids are passed to \<open>RecordAccess\<close>: after every
  prefix of the sequence the calls have returned and \<open>0 \<le> Size() \<le> n\<close>.
\<close>

theorem Size_within_recorded_frames:
  assumes "1 \<le> k" "length (remdups (recorded_frames ops)) \<le> n"
  shows "\<exists>s. run (take m ops) (LRUKReplacer_new n k) = Inr s \<and> 0 \<le> Size s \<and> Size s \<le> n"
proof -
  let ?A = "set (recorded_frames ops)"
  obtain s where r: "run (take m ops) (LRUKReplacer_new n k) = Inr s" and i: "lru_inv ?A s"
    using lru_inv_run [OF lru_inv_new [OF assms(1)] recorded_frames_take] by blast
  have "Size s \<le> card ?A" using Size_le_card [OF i] by simp
  also have "\<dots> = length (remdups (recorded_frames ops))" by (simp add: length_remdups_card_conv)
  finally show ?thesis using r assms(2) by auto
qed

theorem Size_within_recorded_frames_witness:
  "(1::nat) \<le> 2 \<and>
   length (remdups (recorded_frames
     [RecordAccessOp 1, RecordAccessOp 2, RecordAccessOp 1, SetEvictableOp 1 True,
      SetEvictableOp 2 True, EvictOp])) \<le> 2 \<and>
   (\<exists>s. run (take 5 [RecordAccessOp 1, RecordAccessOp 2, RecordAccessOp 1, SetEvictableOp 1 True,
                      SetEvictableOp 2 True, EvictOp]) (LRUKReplacer_new 2 2) = Inr s \<and>
        0 \<le> Size s \<and> Size s \<le> 2)"
proof -
  have h: "length (remdups (recorded_frames
     [RecordAccessOp 1, RecordAccessOp 2, RecordAccessOp 1, SetEvictableOp 1 True,
      SetEvictableOp 2 True, EvictOp])) \<le> 2"
    by simp
  have k: "(1::nat) \<le> 2" by simp
  show ?thesis
    using h Size_within_recorded_frames [OF k h, of 5] by simp
qed

subsection \<open>Victim selection\<close>

text \<open>
  Claim C1 does not hold of the code. \<open>K = 2\<close>; frame 1 is accessed at times 0, 1, 2, 3
  and frame 2 at time 4; both are evictable. Frame 2 is the only frame with fewer than
  \<open>K\<close> accesses, so the claim's victim is frame 2. The loop of \<open>Evict\<close> returns frame 1,
  whichever of the two frames it visits first; the state is the one the calls build.
  In scenario R2 the victim depends on the order of the walk: 3 when frame 3 is
  visited first, 2 when the frames are visited in the order 1, 2, 3.
\<close>

theorem Evict_returns_frame_with_K_accesses:
  "run [RecordAccessOp 1, RecordAccessOp 1, RecordAccessOp 1, RecordAccessOp 1, RecordAccessOp 2,
        SetEvictableOp 1 True, SetEvictableOp 2 True] (LRUKReplacer_new 7 2) =
     Inr \<lparr>access_history = [(1, [0, 1, 2, 3]), (2, [4])], evictable = [(1, True), (2, True)],
          replacer_size = 7, k_hist = 2, current_timestamp = 5, curr_size = 2\<rparr> \<and>
   map_sum id fst
     (Evict \<lparr>access_history = [(1, [0, 1, 2, 3]), (2, [4])], evictable = [(1, True), (2, True)],
            replacer_size = 7, k_hist = 2, current_timestamp = 5, curr_size = 2\<rparr>) =
     Inr (Some 1) \<and>
   map_sum id fst
     (Evict \<lparr>access_history = [(2, [4]), (1, [0, 1, 2, 3])], evictable = [(1, True), (2, True)],
            replacer_size = 7, k_hist = 2, current_timestamp = 5, curr_size = 2\<rparr>) =
     Inr (Some 1) \<and>
   map_sum id fst
     (Evict \<lparr>access_history = [(1, [0, 2, 5]), (2, [1, 3]), (3, [4])],
            evictable = [(1, True), (2, True), (3, True)],
            replacer_size = 7, k_hist = 2, current_timestamp = 6, curr_size = 3\<rparr>) =
     Inr (Some 2) \<and>
   map_sum id fst
     (Evict \<lparr>access_history = [(3, [4]), (2, [1, 3]), (1, [0, 2, 5])],
            evictable = [(1, True), (2, True), (3, True)],
            replacer_size = 7, k_hist = 2, current_timestamp = 6, curr_size = 3\<rparr>) =
     Inr (Some 3)"
  by (simp add: Evict_def Evict_step_def evictable_at_def evict_vars_init_def
                RecordAccess_def SetEvictable_def LRUKReplacer_new_def)

section \<open>Properties of the extendible hash table\<close>

subsection \<open>The invariant\<close>

lemma primary_dir_len:
  assumes "n < 2 ^ 31"
  shows "nat (sint (word_of_nat n :: 32 word)) = n"
proof -
  have "sint (word_of_int (int n) :: 32 word) = signed_take_bit 31 (int n)"
    using sint_sbintrunc' [of "int n", where 'a = 32] by simp
  also have "\<dots> = int n"
    using assms by (simp add: signed_take_bit_int_eq_self)
  finally show ?thesis by simp
qed

lemma expand_directory_dir:
  assumes "length (dir t) = 2 ^ global_depth t" "global_depth t \<le> 30"
  shows "dir (expand_directory t) = dir t @ dir t"
proof -
  have "(2::nat) ^ global_depth t \<le> 2 ^ 30"
    using assms(2) by (intro power_increasing) simp_all
  then have "length (dir t) < 2 ^ 31" using assms(1) by simp
  then show ?thesis by (simp add: expand_directory_def primary_dir_len)
qed

lemma filter_other_keys:
  "key \<notin> fst ` set items \<Longrightarrow> filter (\<lambda>e. fst e \<noteq> key) items = items"
  by (induction items) auto

lemma erase_first_filter:
  "distinct (map fst items) \<Longrightarrow> erase_first key items = filter (\<lambda>e. fst e \<noteq> key) items"
  by (induction items) (auto simp: filter_other_keys)

lemma Bucket_Remove_list:
  "distinct (map fst (b_list b)) \<Longrightarrow>
     b_list (snd (Bucket_Remove key b)) = filter (\<lambda>e. fst e \<noteq> key) (b_list b)"
  by (auto simp: Bucket_Remove_def erase_first_filter filter_other_keys map_of_eq_None_iff)

lemma Bucket_Insert_list:
  "set (b_list (snd (Bucket_Insert key value b))) \<subseteq> insert (key, value) (set (b_list b))"
  "distinct (map fst (b_list b)) \<Longrightarrow> distinct (map fst (b_list (snd (Bucket_Insert key value b))))"
  using set_update_subset [of key "value" "b_list b"]
  by (auto simp: Bucket_Insert_def distinct_update map_of_eq_None_iff)

text \<open>The loop over the items, for two different buckets and distinct keys.\<close>

lemma redistribute_other:
  "redistribute hash t lm oi a db items h = Inr h' \<Longrightarrow> x \<noteq> a \<Longrightarrow> x \<noteq> db \<Longrightarrow> h' x = h x"
proof (induction items arbitrary: h)
  case Nil
  then show ?case by simp
next
  case (Cons item items)
  then show ?case
    by (fastforce simp: Let_def split: sum.splits if_splits)
qed

lemma redistribute_origin:
  assumes "redistribute hash t (2 ^ n - 1) oi a db items h = Inr h'" "a \<noteq> db"
    "distinct (map fst (b_list (h a)))"
  shows "b_list (h' a) =
           filter (\<lambda>e. \<not> (fst e \<in> fst ` set items \<and>
                           hash (fst e) mod 2 ^ global_depth t mod 2 ^ n \<noteq> oi))
                  (b_list (h a))"
  using assms
proof (induction items arbitrary: h)
  case Nil
  then show ?case by simp
next
  case (Cons item items)
  from Cons.prems(1) obtain i where i: "IndexOf hash t (fst item) = Inr i"
    by (auto split: sum.splits)
  then have iv: "i AND nat (2 ^ n - 1) = hash (fst item) mod 2 ^ global_depth t mod 2 ^ n"
    by (simp add: IndexOf_Inr and_low_mask)
  show ?case
  proof (cases "hash (fst item) mod 2 ^ global_depth t mod 2 ^ n \<noteq> oi")
    case True
    let ?h1 = "h(a := snd (Bucket_Remove (fst item) (h a)))"
    let ?h2 = "?h1(db := snd (Bucket_Insert (fst item) (snd item) (?h1 db)))"
    have r: "redistribute hash t (2 ^ n - 1) oi a db items ?h2 = Inr h'"
      using Cons.prems(1) i iv True by (simp add: Let_def)
    have l: "b_list (?h2 a) = filter (\<lambda>e. fst e \<noteq> fst item) (b_list (h a))"
      using Cons.prems(2,3) by (simp add: Bucket_Remove_list)
    then have d: "distinct (map fst (b_list (?h2 a)))"
      using Cons.prems(3) by (simp add: distinct_map_filter)
    from Cons.IH [OF r Cons.prems(2) d] l True Cons.prems(2) show ?thesis
      by (auto intro!: filter_cong)
  next
    case False
    then have r: "redistribute hash t (2 ^ n - 1) oi a db items h = Inr h'"
      using Cons.prems(1) i iv by simp
    from Cons.IH [OF r Cons.prems(2,3)] False show ?thesis
      by (auto intro!: filter_cong)
  qed
qed

lemma redistribute_divide:
  assumes "redistribute hash t (2 ^ n - 1) oi a db items h = Inr h'" "a \<noteq> db"
    "distinct (map fst (b_list (h db)))"
  shows "set (b_list (h' db)) \<subseteq>
           set (b_list (h db)) \<union>
           {e \<in> set items. hash (fst e) mod 2 ^ global_depth t mod 2 ^ n \<noteq> oi} \<and>
         distinct (map fst (b_list (h' db)))"
  using assms
proof (induction items arbitrary: h)
  case Nil
  then show ?case by simp
next
  case (Cons item items)
  from Cons.prems(1) obtain i where i: "IndexOf hash t (fst item) = Inr i"
    by (auto split: sum.splits)
  then have iv: "i AND nat (2 ^ n - 1) = hash (fst item) mod 2 ^ global_depth t mod 2 ^ n"
    by (simp add: IndexOf_Inr and_low_mask)
  show ?case
  proof (cases "hash (fst item) mod 2 ^ global_depth t mod 2 ^ n \<noteq> oi")
    case True
    let ?h1 = "h(a := snd (Bucket_Remove (fst item) (h a)))"
    let ?h2 = "?h1(db := snd (Bucket_Insert (fst item) (snd item) (?h1 db)))"
    have r: "redistribute hash t (2 ^ n - 1) oi a db items ?h2 = Inr h'"
      using Cons.prems(1) i iv True by (simp add: Let_def)
    have l: "b_list (?h2 db) = b_list (snd (Bucket_Insert (fst item) (snd item) (h db)))"
      using Cons.prems(2) by simp
    have d: "distinct (map fst (b_list (?h2 db)))"
      using Cons.prems(3) by (simp only: l Bucket_Insert_list(2))
    have s: "set (b_list (?h2 db)) \<subseteq> insert item (set (b_list (h db)))"
      using Bucket_Insert_list(1) [of "fst item" "snd item" "h db"] by (simp only: l prod.collapse)
    from Cons.IH [OF r Cons.prems(2) d] s True Cons.prems(2) show ?thesis
      by auto
  next
    case False
    then have r: "redistribute hash t (2 ^ n - 1) oi a db items h = Inr h'"
      using Cons.prems(1) i iv by simp
    from Cons.IH [OF r Cons.prems(2,3)] show ?thesis
      by auto
  qed
qed

lemma redistribute_global_depth:
  "global_depth t = global_depth u \<Longrightarrow>
     redistribute hash t lm oi a db items h = redistribute hash u lm oi a db items h"
  by (induction items arbitrary: h) (auto simp: IndexOf_def Let_def split: sum.splits)

text \<open>The state after the split proper.\<close>

lemma split_at_Inr:
  assumes "split_at hash t index a = Inr t'"
  shows "b_depth (heap t a) < 30"
    and "global_depth t' = global_depth t"
    and "dir t' =
           remap_directory (2 ^ Suc (b_depth (heap t a)) - 1)
             (index mod 2 ^ Suc (b_depth (heap t a)))
             (flip_bit (b_depth (heap t a)) (index mod 2 ^ Suc (b_depth (heap t a))))
             a (next_addr t) (dir t)"
    and "next_addr t' = Suc (next_addr t)"
    and "num_buckets t' = num_buckets t + 1"
    and "bucket_size t' = bucket_size t"
  using assms
  by (auto simp: split_at_def Let_def GetDepth_def IncrementDepth_def low_mask_Inr
                 and_low_mask divide_index_flip' Bucket_new_def GetItems_def
           simp del: power_Suc
           split: sum.splits if_splits)

lemma split_at_redistribute:
  assumes "split_at hash t index a = Inr t'" and f: "a \<noteq> next_addr t"
  shows "redistribute hash t (2 ^ Suc (b_depth (heap t a)) - 1)
           (index mod 2 ^ Suc (b_depth (heap t a))) a (next_addr t)
           (b_list (((heap t)(a := IncrementDepth (heap t a),
                              next_addr t := Bucket_new (bucket_size t)
                                               (Suc (b_depth (heap t a))))) a))
           ((heap t)(a := IncrementDepth (heap t a),
                     next_addr t := Bucket_new (bucket_size t) (Suc (b_depth (heap t a))))) =
         Inr (heap t')"
proof -
  let ?n = "Suc (b_depth (heap t a))"
  let ?h3 = "(heap t)(a := IncrementDepth (heap t a),
                      next_addr t := Bucket_new (bucket_size t) ?n)"
  let ?t2 = "t\<lparr>heap := (heap t)(a := IncrementDepth (heap t a))\<rparr>"
  let ?t3 = "?t2\<lparr>heap := ?h3, next_addr := next_addr ?t2 + 1, num_buckets := num_buckets ?t2 + 1\<rparr>"
  have m: "low_mask ?n = Inr (2 ^ ?n - 1)"
    using split_at_Inr(1) [OF assms(1)]
    by (simp add: low_mask_def del: power_Suc)
  let ?r = "redistribute hash ?t3 (2 ^ ?n - 1) (index mod 2 ^ ?n) a (next_addr t)
                (b_list (?h3 a)) ?h3"
  have e: "split_at hash t index a =
             (case ?r of
                Inl err \<Rightarrow> Inl err
              | Inr h \<Rightarrow>
                  Inr (?t3\<lparr>heap := h,
                           dir := remap_directory (2 ^ ?n - 1) (index mod 2 ^ ?n)
                                    (flip_bit (b_depth (heap t a)) (index mod 2 ^ ?n))
                                    a (next_addr t) (dir t)\<rparr>))"
    using f
    by (simp add: split_at_def Let_def m and_low_mask GetItems_def GetDepth_def
                  IncrementDepth_def divide_index_flip'
             del: power_Suc cong: sum.case_cong)
  have "?r = Inr (heap t')"
  proof (cases ?r)
    case (Inl err)
    then show ?thesis using assms(1) by (simp only: e sum.case) simp
  next
    case (Inr h)
    then have "t' = ?t3\<lparr>heap := h,
                           dir := remap_directory (2 ^ ?n - 1) (index mod 2 ^ ?n)
                                    (flip_bit (b_depth (heap t a)) (index mod 2 ^ ?n))
                                    a (next_addr t) (dir t)\<rparr>"
      using assms(1) by (simp only: e sum.case sum.inject)
    then have "heap t' = h" by simp
    then show ?thesis using Inr by (simp only:)
  qed
  moreover have "redistribute hash ?t3 (2 ^ ?n - 1) (index mod 2 ^ ?n) a (next_addr t)
                (b_list (?h3 a)) ?h3 =
              redistribute hash t (2 ^ ?n - 1) (index mod 2 ^ ?n) a (next_addr t)
                (b_list (?h3 a)) ?h3"
    by (rule redistribute_global_depth) simp
  ultimately show ?thesis by (simp only:)
qed

lemma split_at_heap:
  assumes s: "split_at hash t index a = Inr t'" and f: "a \<noteq> next_addr t"
    and d: "distinct (map fst (b_list (heap t a)))"
  shows "b_list (heap t' a) =
           filter (\<lambda>e. hash (fst e) mod 2 ^ global_depth t mod 2 ^ Suc (b_depth (heap t a)) =
                        index mod 2 ^ Suc (b_depth (heap t a)))
                  (b_list (heap t a))"
    and "set (b_list (heap t' (next_addr t))) \<subseteq>
           {e \<in> set (b_list (heap t a)).
              hash (fst e) mod 2 ^ global_depth t mod 2 ^ Suc (b_depth (heap t a)) \<noteq>
                index mod 2 ^ Suc (b_depth (heap t a))}"
    and "distinct (map fst (b_list (heap t' (next_addr t))))"
    and "x \<noteq> a \<Longrightarrow> x \<noteq> next_addr t \<Longrightarrow> heap t' x = heap t x"
    and "b_depth (heap t' a) = Suc (b_depth (heap t a))"
    and "b_depth (heap t' (next_addr t)) = Suc (b_depth (heap t a))"
    and "b_size (heap t' a) = b_size (heap t a)"
    and "b_size (heap t' (next_addr t)) = bucket_size t"
proof -
  let ?n = "Suc (b_depth (heap t a))"
  let ?h3 = "(heap t)(a := IncrementDepth (heap t a),
                      next_addr t := Bucket_new (bucket_size t) ?n)"
  have r: "redistribute hash t (2 ^ ?n - 1) (index mod 2 ^ ?n) a (next_addr t)
              (b_list (?h3 a)) ?h3 = Inr (heap t')"
    using split_at_redistribute [OF s f] .
  have la: "b_list (?h3 a) = b_list (heap t a)"
    using f by (simp add: IncrementDepth_def)
  have ld: "b_list (?h3 (next_addr t)) = []"
    by (simp add: Bucket_new_def)
  have da: "distinct (map fst (b_list (?h3 a)))" using d by (simp only: la)
  have dd: "distinct (map fst (b_list (?h3 (next_addr t))))" by (simp only: ld) simp
  from redistribute_origin [OF r f da]
  show "b_list (heap t' a) =
           filter (\<lambda>e. hash (fst e) mod 2 ^ global_depth t mod 2 ^ ?n = index mod 2 ^ ?n)
                  (b_list (heap t a))"
    by (simp only: la) (auto intro!: filter_cong)
  from redistribute_divide [OF r f dd]
  show "set (b_list (heap t' (next_addr t))) \<subseteq>
           {e \<in> set (b_list (heap t a)).
              hash (fst e) mod 2 ^ global_depth t mod 2 ^ ?n \<noteq> index mod 2 ^ ?n}"
    and "distinct (map fst (b_list (heap t' (next_addr t))))"
    by (simp_all only: la ld) auto
  show "heap t' x = heap t x" if "x \<noteq> a" "x \<noteq> next_addr t"
    using redistribute_other [OF r that] that by simp
  from redistribute_fields [OF r, of a] f
  show "b_depth (heap t' a) = ?n" "b_size (heap t' a) = b_size (heap t a)"
    by (simp_all add: IncrementDepth_def)
  from redistribute_fields [OF r, of "next_addr t"]
  show "b_depth (heap t' (next_addr t)) = ?n" "b_size (heap t' (next_addr t)) = bucket_size t"
    by (simp_all add: Bucket_new_def)
qed

lemma table_inv_slot: "table_inv hash t \<Longrightarrow> s < length (dir t) \<Longrightarrow> slot_inv hash t s"
  by (simp add: table_inv_def)

text \<open>The split proper keeps the invariant, when the bucket is shallower than the directory.\<close>

lemma split_at_inv:
  assumes inv: "table_inv hash t" and idx: "index < length (dir t)"
    and lt: "b_depth (heap t (dir t ! index)) < global_depth t"
    and s: "split_at hash t index (dir t ! index) = Inr t'"
  shows "table_inv hash t'"
proof -
  define a where "a = dir t ! index"
  define d where "d = b_depth (heap t a)"
  define oi where "oi = index mod 2 ^ Suc d"
  define di where "di = flip_bit d oi"
  define db where "db = next_addr t"
  define gd where "gd = global_depth t"
  note defs = a_def d_def oi_def di_def db_def gd_def
  have sa: "slot_inv hash t index" using inv idx by (rule table_inv_slot)
  have a_lt: "a < db" and a_size: "b_size (heap t a) = bucket_size t"
    and a_dist: "distinct (map fst (b_list (heap t a)))"
    and a_alias: "\<And>s'. s' < length (dir t) \<Longrightarrow> dir t ! s' = a \<Longrightarrow> s' mod 2 ^ d = index mod 2 ^ d"
    and a_coh: "\<And>e. e \<in> set (b_list (heap t a)) \<Longrightarrow> hash (fst e) mod 2 ^ d = index mod 2 ^ d"
    using sa by (simp_all add: slot_inv_def defs)
  have f: "a \<noteq> db" using a_lt by simp
  have s': "split_at hash t index a = Inr t'" using s by (simp only: a_def)
  have f': "a \<noteq> next_addr t" using f unfolding db_def .
  have S: "d < 30" "global_depth t' = gd"
    "dir t' = remap_directory (2 ^ Suc d - 1) oi di a db (dir t)"
    "next_addr t' = Suc db" "num_buckets t' = num_buckets t + 1" "bucket_size t' = bucket_size t"
    using split_at_Inr [OF s'] unfolding defs by blast+
  have H: "b_list (heap t' a) =
             filter (\<lambda>e. hash (fst e) mod 2 ^ gd mod 2 ^ Suc d = oi) (b_list (heap t a))"
    "set (b_list (heap t' db)) \<subseteq>
       {e \<in> set (b_list (heap t a)). hash (fst e) mod 2 ^ gd mod 2 ^ Suc d \<noteq> oi}"
    "distinct (map fst (b_list (heap t' db)))"
    "\<And>x. x \<noteq> a \<Longrightarrow> x \<noteq> db \<Longrightarrow> heap t' x = heap t x"
    "b_depth (heap t' a) = Suc d" "b_depth (heap t' db) = Suc d"
    "b_size (heap t' a) = b_size (heap t a)" "b_size (heap t' db) = bucket_size t"
    using split_at_heap [OF s' f' a_dist] unfolding defs by blast+
  have n_le: "Suc d \<le> gd" using lt by (simp add: defs)
  have gd30: "gd \<le> 30" and len: "length (dir t) = 2 ^ gd" and bs: "1 \<le> bucket_size t"
    using inv by (simp_all add: table_inv_def gd_def)
  have oi_lt: "oi < 2 ^ Suc d" by (simp add: oi_def)
  note F = flip_bit_props [OF oi_lt, folded di_def]
  have oi_d: "oi mod 2 ^ d = index mod 2 ^ d"
    by (simp add: oi_def mod_exp_mod_exp del: power_Suc)
  have pick: "x mod 2 ^ Suc d = oi \<or> x mod 2 ^ Suc d = di" if "x mod 2 ^ d = index mod 2 ^ d" for x
  proof -
    have "x mod 2 ^ Suc d < 2 ^ Suc d" by simp
    moreover have "oi mod 2 ^ d = x mod 2 ^ Suc d mod 2 ^ d"
      using that oi_d by (simp add: mod_exp_mod_exp del: power_Suc)
    moreover have "di mod 2 ^ d = x mod 2 ^ Suc d mod 2 ^ d"
      using that oi_d F(2) by (simp add: mod_exp_mod_exp del: power_Suc)
    ultimately show ?thesis
      using two_lifts [OF oi_lt F(1), of "x mod 2 ^ Suc d"] F(3) by metis
  qed
  have len': "length (dir t') = length (dir t)" by (simp add: S(3))
  have nth: "dir t' ! s = (if s mod 2 ^ Suc d = oi then a
                           else if s mod 2 ^ Suc d = di then db else dir t ! s)"
    if "s < length (dir t)" for s
    using that by (simp add: S(3) nth_remap_directory del: power_Suc)
  have unchanged: "dir t ! s \<noteq> a \<and> dir t ! s \<noteq> db"
    if "s < length (dir t)" "s mod 2 ^ Suc d \<noteq> oi" "s mod 2 ^ Suc d \<noteq> di" for s
  proof -
    have "dir t ! s < db" using table_inv_slot [OF inv that(1)] by (simp add: slot_inv_def db_def)
    moreover have "dir t ! s \<noteq> a" using a_alias [OF that(1)] pick [of s] that(2,3) by blast
    ultimately show ?thesis by simp
  qed
  have "slot_inv hash t' s" if sl: "s < length (dir t)" for s
  proof -
    consider (origin) "s mod 2 ^ Suc d = oi"
      | (divide) "s mod 2 ^ Suc d \<noteq> oi" "s mod 2 ^ Suc d = di"
      | (other) "s mod 2 ^ Suc d \<noteq> oi" "s mod 2 ^ Suc d \<noteq> di"
      by blast
    then show ?thesis
    proof cases
      case origin
      then have e: "dir t' ! s = a" using nth [OF sl] by simp
      have al: "s' mod 2 ^ Suc d = s mod 2 ^ Suc d" if "s' < length (dir t)" "dir t' ! s' = a" for s'
        using that nth [OF that(1)] unchanged [OF that(1)] f origin by (auto split: if_splits)
      have co: "hash (fst x) mod 2 ^ Suc d = s mod 2 ^ Suc d" if "x \<in> set (b_list (heap t' a))" for x
        using that n_le origin by (auto simp add: H(1) mod_exp_mod_exp simp del: power_Suc)
      show ?thesis
        using a_lt n_le a_size a_dist al co
        by (simp add: slot_inv_def e S(2,4,6) H(5,7) len' distinct_map_filter H(1)
                 del: power_Suc)
    next
      case divide
      then have e: "dir t' ! s = db" using nth [OF sl] by simp
      have al: "s' mod 2 ^ Suc d = s mod 2 ^ Suc d" if "s' < length (dir t)" "dir t' ! s' = db" for s'
        using that nth [OF that(1)] unchanged [OF that(1)] f divide by (auto split: if_splits)
      have co: "hash (fst x) mod 2 ^ Suc d = s mod 2 ^ Suc d" if "x \<in> set (b_list (heap t' db))" for x
      proof -
        from that H(2) have m: "x \<in> set (b_list (heap t a))"
          and ne: "hash (fst x) mod 2 ^ gd mod 2 ^ Suc d \<noteq> oi"
          by auto
        from ne n_le have "hash (fst x) mod 2 ^ Suc d \<noteq> oi"
          by (simp add: mod_exp_mod_exp del: power_Suc)
        with pick [OF a_coh [OF m]] divide show ?thesis by simp
      qed
      show ?thesis
        using n_le al co H(3)
        by (simp add: slot_inv_def e S(2,4,6) H(6,8) len' del: power_Suc)
    next
      case other
      then have e: "dir t' ! s = dir t ! s" using nth [OF sl] by simp
      from unchanged [OF sl other] have h: "heap t' (dir t ! s) = heap t (dir t ! s)"
        by (simp add: H(4))
      have old: "slot_inv hash t s" using inv sl by (rule table_inv_slot)
      have al: "dir t ! s' = dir t ! s" if "s' < length (dir t)" "dir t' ! s' = dir t ! s" for s'
        using that nth [OF that(1)] unchanged [OF sl other] by (auto split: if_splits)
      show ?thesis
        using old al
        by (simp add: slot_inv_def e h S(2,4,6) len' gd_def db_def)
    qed
  qed
  then show ?thesis
    using gd30 len bs by (simp add: table_inv_def len' S(2,6))
qed

text \<open>Directory doubling keeps the invariant while the depth stays in range.\<close>

lemma expand_directory_inv:
  assumes inv: "table_inv hash t" and lt: "global_depth t < 30"
  shows "table_inv hash (expand_directory t)"
proof -
  let ?u = "expand_directory t"
  let ?gd = "global_depth t"
  have len: "length (dir t) = 2 ^ ?gd" and g: "?gd \<le> 30" and bs: "1 \<le> bucket_size t"
    using inv by (simp_all add: table_inv_def)
  have du: "dir ?u = dir t @ dir t" using len g by (rule expand_directory_dir)
  have fu: "global_depth ?u = Suc ?gd" "heap ?u = heap t" "next_addr ?u = next_addr t"
    "bucket_size ?u = bucket_size t"
    by (simp_all add: expand_directory_def)
  have nth: "dir ?u ! s = dir t ! (s mod 2 ^ ?gd)" if "s < length (dir ?u)" for s
  proof (cases "s < 2 ^ ?gd")
    case True
    then show ?thesis by (simp add: du nth_append len)
  next
    case False
    have "s - 2 ^ ?gd < 2 ^ ?gd" using that False by (simp add: du len)
    then have "s mod 2 ^ ?gd = s - 2 ^ ?gd"
      using False by (simp add: le_mod_geq)
    then show ?thesis using False by (simp add: du nth_append len)
  qed
  have "slot_inv hash ?u s" if sl: "s < length (dir ?u)" for s
  proof -
    let ?s0 = "s mod 2 ^ ?gd"
    let ?x = "dir t ! ?s0"
    let ?d = "b_depth (heap t ?x)"
    have s0: "?s0 < length (dir t)" by (simp add: len)
    have old: "slot_inv hash t ?s0" using inv s0 by (rule table_inv_slot)
    then have dle: "?d \<le> ?gd" by (simp add: slot_inv_def)
    have m: "y mod 2 ^ ?gd mod 2 ^ ?d = y mod 2 ^ ?d" for y :: nat
      using dle by (rule mod_exp_mod_exp)
    have al: "s' mod 2 ^ ?d = s mod 2 ^ ?d" if "s' < length (dir ?u)" "dir ?u ! s' = ?x" for s'
    proof -
      have "s' mod 2 ^ ?gd < length (dir t)" by (simp add: len)
      moreover have "dir t ! (s' mod 2 ^ ?gd) = ?x" using that nth by simp
      ultimately have "s' mod 2 ^ ?gd mod 2 ^ ?d = ?s0 mod 2 ^ ?d"
        using old by (simp add: slot_inv_def)
      then show ?thesis by (simp only: m)
    qed
    have co: "hash (fst e) mod 2 ^ ?d = s mod 2 ^ ?d" if "e \<in> set (b_list (heap t ?x))" for e
      using old that m [of s] by (simp add: slot_inv_def)
    show ?thesis
      using old al co
      by (simp add: slot_inv_def nth [OF sl] fu)
  qed
  then show ?thesis
    using lt bs by (simp add: table_inv_def fu) (simp add: du len)
qed

lemma split_bucket_inv:
  assumes inv: "table_inv hash t" and idx: "index < length (dir t)"
    and s: "split_bucket hash t index = Inr t'"
  shows "table_inv hash t'"
proof -
  let ?a = "dir t ! index"
  have d30: "b_depth (heap t ?a) < 30" using split_bucket_Inr(1) [OF s] .
  have dle: "b_depth (heap t ?a) \<le> global_depth t"
    using table_inv_slot [OF inv idx] by (simp add: slot_inv_def)
  show ?thesis
  proof (cases "b_depth (heap t ?a) = global_depth t")
    case True
    let ?u = "expand_directory t"
    have iu: "table_inv hash ?u" using inv d30 True by (simp add: expand_directory_inv)
    have len: "length (dir t) = 2 ^ global_depth t" and g: "global_depth t \<le> 30"
      using inv by (simp_all add: table_inv_def)
    have du: "dir ?u = dir t @ dir t" using len g by (rule expand_directory_dir)
    have a: "dir ?u ! index = ?a" using idx by (simp add: du nth_append)
    have sp: "split_at hash ?u index (dir ?u ! index) = Inr t'"
      using s True by (simp add: split_bucket_def GetDepth_def a)
    have iu': "index < length (dir ?u)" using idx by (simp add: du)
    have "b_depth (heap ?u (dir ?u ! index)) < global_depth ?u"
      using True by (simp add: a) (simp add: expand_directory_def)
    with iu iu' show ?thesis using sp by (rule split_at_inv)
  next
    case False
    then have sp: "split_at hash t index ?a = Inr t'"
      using s by (simp add: split_bucket_def GetDepth_def)
    have "b_depth (heap t ?a) < global_depth t" using False dle by simp
    with inv idx show ?thesis using sp by (rule split_at_inv)
  qed
qed

lemma IndexOf_less:
  "table_inv hash t \<Longrightarrow> IndexOf hash t key = Inr index \<Longrightarrow> index < length (dir t)"
  by (simp add: IndexOf_Inr table_inv_def)

text \<open>Storing a pair in the bucket of its key keeps the invariant.\<close>

lemma store_inv:
  assumes inv: "table_inv hash t" and i: "IndexOf hash t key = Inr index"
  shows "table_inv hash (t\<lparr>heap := (heap t)
           (dir t ! index := snd (Bucket_Insert key value (heap t (dir t ! index))))\<rparr>)"
proof -
  let ?a = "dir t ! index"
  let ?b = "snd (Bucket_Insert key value (heap t ?a))"
  let ?u = "t\<lparr>heap := (heap t)(?a := ?b)\<rparr>"
  have idx: "index < length (dir t)" using inv i by (rule IndexOf_less)
  have ix: "index = hash key mod 2 ^ global_depth t" using i by (simp add: IndexOf_Inr)
  have "slot_inv hash ?u s" if sl: "s < length (dir t)" for s
  proof (cases "dir t ! s = ?a")
    case True
    have old: "slot_inv hash t s" using inv sl by (rule table_inv_slot)
    have olda: "slot_inv hash t index" using inv idx by (rule table_inv_slot)
    let ?d = "b_depth (heap t ?a)"
    have "s mod 2 ^ ?d = index mod 2 ^ ?d"
      using olda sl True by (simp add: slot_inv_def)
    moreover have "index mod 2 ^ ?d = hash key mod 2 ^ ?d"
      using olda by (simp add: ix slot_inv_def mod_exp_mod_exp)
    ultimately have k: "hash key mod 2 ^ ?d = s mod 2 ^ ?d" by simp
    have co: "hash (fst e) mod 2 ^ ?d = s mod 2 ^ ?d" if "e \<in> set (b_list ?b)" for e
      using that Bucket_Insert_list(1) [of key "value" "heap t ?a"] k old True
      by (auto simp: slot_inv_def)
    show ?thesis
      using old True co Bucket_Insert_list(2) [of "heap t ?a" key "value"]
      by (simp add: slot_inv_def)
  next
    case False
    then show ?thesis
      using table_inv_slot [OF inv sl] by (simp add: slot_inv_def)
  qed
  then show ?thesis using inv by (simp add: table_inv_def)
qed

lemma Insert_inv:
  "table_inv hash t \<Longrightarrow> Insert hash t key value = Inr t' \<Longrightarrow> table_inv hash t'"
proof (induction hash t key "value" rule: Insert.induct)
  case (1 hash t key "value")
  from "1.prems"(2) obtain index where i: "IndexOf hash t key = Inr index"
    by (cases "IndexOf hash t key") (simp_all add: Insert.simps [of hash t key "value"])
  have idx: "index < length (dir t)" using "1.prems"(1) i by (rule IndexOf_less)
  let ?r = "Bucket_Insert key value (heap t (dir t ! index))"
  show ?case
  proof (cases "fst ?r")
    case True
    then have "t' = t\<lparr>heap := (heap t)(dir t ! index := snd ?r)\<rparr>"
      using "1.prems"(2) i idx by (simp add: Insert.simps [of hash t key "value"] Let_def)
    then show ?thesis using store_inv [OF "1.prems"(1) i] by simp
  next
    case False
    then obtain t1 where s: "split_bucket hash t index = Inr t1"
      and r: "Insert hash t1 key value = Inr t'"
      using "1.prems"(2) i idx
      by (auto simp add: Insert.simps [of hash t key "value"] Let_def split: sum.splits)
    have "table_inv hash t1" using "1.prems"(1) idx s by (rule split_bucket_inv)
    with "1.IH" [OF i _ refl False s] idx r show ?thesis by simp
  qed
qed

lemma set_erase_first: "set (erase_first key items) \<subseteq> set items"
  by (induction items) auto

lemma distinct_erase_first:
  "distinct (map fst items) \<Longrightarrow> distinct (map fst (erase_first key items))"
  by (simp add: erase_first_filter distinct_map_filter)

lemma Remove_key_inv:
  assumes inv: "table_inv hash t" and r: "Remove_key hash t key = Inr (b, t')"
  shows "table_inv hash t'"
proof -
  from r obtain index where i: "IndexOf hash t key = Inr index"
    by (cases "IndexOf hash t key") (simp_all add: Remove_key_def)
  let ?a = "dir t ! index"
  let ?u = "t\<lparr>heap := (heap t)(?a := snd (Bucket_Remove key (heap t ?a)))\<rparr>"
  have "slot_inv hash ?u s" if sl: "s < length (dir t)" for s
  proof (cases "dir t ! s = ?a")
    case True
    have old: "slot_inv hash t s" using inv sl by (rule table_inv_slot)
    have "set (b_list (snd (Bucket_Remove key (heap t ?a)))) \<subseteq> set (b_list (heap t ?a))"
      using set_erase_first [of key "b_list (heap t ?a)"] by (simp add: Bucket_Remove_def)
    then have co: "\<forall>e \<in> set (b_list (snd (Bucket_Remove key (heap t ?a)))).
             hash (fst e) mod 2 ^ b_depth (heap t ?a) = s mod 2 ^ b_depth (heap t ?a)"
      using old True by (auto simp: slot_inv_def)
    have di: "distinct (map fst (b_list (snd (Bucket_Remove key (heap t ?a)))))"
      using old True by (simp add: slot_inv_def Bucket_Remove_def distinct_erase_first)
    show ?thesis
      using old True co di by (simp add: slot_inv_def)
  next
    case False
    then show ?thesis
      using table_inv_slot [OF inv sl] by (simp add: slot_inv_def)
  qed
  then have "table_inv hash ?u" using inv by (simp add: table_inv_def)
  then show ?thesis
    using r i inv by (auto simp: Remove_key_def split: if_splits)
qed

lemma new_inv: "1 \<le> n \<Longrightarrow> table_inv hash (ExtendibleHashTable_new n)"
  by (simp add: table_inv_def slot_inv_def ExtendibleHashTable_new_def Bucket_new_def)

lemma reachable_inv: "reachable hash t \<Longrightarrow> table_inv hash t"
proof (induction rule: reachable.induct)
  case (constructed n)
  then show ?case by (rule new_inv)
next
  case (after_Insert t key "value" t')
  then show ?case by (simp add: Insert_inv)
next
  case (after_Remove t key b t')
  then show ?case by (simp add: Remove_key_inv)
next
  case (after_Find t key r t')
  then show ?case by (auto simp: Find_def split: sum.splits if_splits)
qed

lemma and_nat_low_mask: "(x::nat) AND (2 ^ d - Suc 0) = x mod 2 ^ d"
  using and_low_mask [of x d] by (simp add: nat_low_mask)

lemma table_inv_coherent:
  assumes "table_inv hash t"
  shows "coherent hash t"
  unfolding coherent_def
proof (intro allI impI ballI)
  fix s e
  assume "s < length (dir t)" and e: "e \<in> set (b_list (heap t (dir t ! s)))"
  then have "slot_inv hash t s" using assms by (simp add: table_inv_slot)
  then have "hash (fst e) mod 2 ^ b_depth (heap t (dir t ! s)) =
               s mod 2 ^ b_depth (heap t (dir t ! s))"
    using e unfolding slot_inv_def by blast
  then show "hash (fst e) AND (2 ^ GetLocalDepth t s - 1) = s AND (2 ^ GetLocalDepth t s - 1)"
    by (simp add: GetLocalDepth_def GetDepth_def and_nat_low_mask)
qed

text \<open>
  Claim C2. Directory-bucket coherence holds in every state of a table: it holds
  after construction and is preserved by every \<open>Insert\<close>, \<open>Remove\<close> and \<open>Find\<close>
  that returns. For every directory slot \<open>s\<close> and every entry \<open>(k, v)\<close> of the bucket
  \<open>dir[s]\<close>, \<open>hash(k) & ((1 << d) - 1) = s & ((1 << d) - 1)\<close>, \<open>d\<close> the local depth
  of \<open>dir[s]\<close>.
\<close>

theorem reachable_coherent: "reachable hash t \<Longrightarrow> coherent hash t"
  by (simp add: reachable_inv table_inv_coherent)

lemma reachable_Insert_seq:
  "reachable hash t \<Longrightarrow> Insert_seq hash t kvs = Inr t' \<Longrightarrow> reachable hash t'"
proof (induction kvs arbitrary: t)
  case Nil
  then show ?case by simp
next
  case (Cons kv kvs)
  then show ?case
    by (auto split: sum.splits intro: reachable.after_Insert)
qed

theorem reachable_coherent_witness:
  "\<exists>t. Insert_seq (\<lambda>x. x) (ExtendibleHashTable_new 2) [(0, 0), (4, 4), (2 :: nat, 2 :: nat)] = Inr t \<and>
       GetGlobalDepth t = 2 \<and> reachable (\<lambda>x. x) t \<and> coherent (\<lambda>x. x) t"
proof -
  let ?h = "\<lambda>x :: nat. x"
  let ?r = "Insert_seq ?h (ExtendibleHashTable_new 2) [(0, 0), (4, 4), (2 :: nat, 2 :: nat)]"
  have "map_sum id GetGlobalDepth ?r = Inr 2" by code_simp
  then obtain t where i: "?r = Inr t" and g: "GetGlobalDepth t = 2"
    by (cases ?r) auto
  have "reachable ?h (ExtendibleHashTable_new 2 :: (nat, nat) ExtendibleHashTable)"
    by (rule reachable.constructed) simp
  then have r: "reachable ?h t" using i by (rule reachable_Insert_seq)
  then show ?thesis using i g reachable_coherent [OF r] by blast
qed

subsection \<open>Insert, then Find\<close>

lemma Bucket_Insert_Find:
  "fst (Bucket_Insert key value b) \<Longrightarrow> Bucket_Find key (snd (Bucket_Insert key value b)) = Some value"
  by (auto simp: Bucket_Insert_def Bucket_Find_def update_conv' map_add_def split: if_splits)

lemma Bucket_Insert_bound:
  "Bucket_Find key b \<noteq> None \<Longrightarrow> fst (Bucket_Insert key value b)"
  by (simp add: Bucket_Insert_def Bucket_Find_def)

lemma Insert_Find:
  "Insert hash t key value = Inr t' \<Longrightarrow> Find hash t' key = Inr (Some value, t')"
proof (induction hash t key "value" rule: Insert.induct)
  case (1 hash t key "value")
  show ?case
  proof (cases "IndexOf hash t key")
    case (Inl err)
    then show ?thesis using "1.prems" by (simp add: Insert.simps [of hash t key "value"])
  next
    case (Inr index)
    show ?thesis
    proof (cases "length (dir t) \<le> index")
      case True
      then show ?thesis using "1.prems" Inr by (simp add: Insert.simps [of hash t key "value"])
    next
      case False
      let ?r = "Bucket_Insert key value (heap t (dir t ! index))"
      show ?thesis
      proof (cases "fst ?r")
        case True
        then have "t' = t\<lparr>heap := (heap t)(dir t ! index := snd ?r)\<rparr>"
          using "1.prems" Inr False by (simp add: Insert.simps [of hash t key "value"] Let_def)
        moreover have "IndexOf hash (t\<lparr>heap := (heap t)(dir t ! index := snd ?r)\<rparr>) key = Inr index"
          using Inr by (simp add: IndexOf_def)
        ultimately show ?thesis
          using False True by (simp add: Find_def Bucket_Insert_Find)
      next
        case nf: False
        then obtain t1 where s: "split_bucket hash t index = Inr t1"
          and i: "Insert hash t1 key value = Inr t'"
          using "1.prems" Inr False
          by (auto simp add: Insert.simps [of hash t key "value"] Let_def split: sum.splits)
        from "1.IH" [OF Inr False refl nf s i] show ?thesis .
      qed
    qed
  qed
qed

lemma Insert_overwrite_Find:
  assumes "Find hash t key = Inr (Some v1, t)"
  shows "\<exists>t2. Insert hash t key v2 = Inr t2 \<and> Find hash t2 key = Inr (Some v2, t2)"
proof -
  from assms obtain index where i: "IndexOf hash t key = Inr index"
    and l: "\<not> length (dir t) \<le> index"
    and b: "Bucket_Find key (heap t (dir t ! index)) = Some v1"
    by (auto simp: Find_def split: sum.splits if_splits)
  have "fst (Bucket_Insert key v2 (heap t (dir t ! index)))"
    using b by (simp add: Bucket_Insert_bound)
  then have "\<exists>t2. Insert hash t key v2 = Inr t2"
    using i l by (simp add: Insert.simps [of hash t key v2] Let_def)
  then obtain t2 where "Insert hash t key v2 = Inr t2" ..
  then show ?thesis
    using Insert_Find [of hash t key v2 t2] by blast
qed

subsection \<open>Overwriting a bound key\<close>

text \<open>
  Claim C4. In every table state in which \<open>key\<close> is bound (\<open>Find\<close> returns a value),
  \<open>Insert key value\<close> returns without doubling the directory or splitting a bucket,
  whether the bucket is full or not: global depth, directory, bucket count and every
  bucket's local depth are unchanged, no bucket is allocated, and \<open>key\<close> is bound to
  \<open>value\<close>. In scenario H2 (\<open>bucket_capacity = 1\<close>, \<open>Insert(7,"a")\<close>,
  \<open>Insert(7,"b")\<close>): \<open>Find(7) = "b"\<close>, one bucket, global depth 0.
\<close>

theorem Insert_bound_key_no_split:
  "(Find hash t key = Inr (Some v0, t) \<longrightarrow>
      (\<exists>t'. Insert hash t key value = Inr t' \<and>
            GetGlobalDepth t' = GetGlobalDepth t \<and>
            GetNumBuckets t' = GetNumBuckets t \<and>
            dir t' = dir t \<and> next_addr t' = next_addr t \<and>
            (\<forall>a. GetDepth (heap t' a) = GetDepth (heap t a)) \<and>
            (\<forall>slot. GetLocalDepth t' slot = GetLocalDepth t slot) \<and>
            Find hash t' key = Inr (Some value, t'))) \<and>
   Find_after (\<lambda>x. x) 7
     (Insert_seq (\<lambda>x. x) (ExtendibleHashTable_new 1) [(7 :: nat, ''a''), (7, ''b'')]) =
     Inr (Some ''b'') \<and>
   map_sum id GetNumBuckets
     (Insert_seq (\<lambda>x. x) (ExtendibleHashTable_new 1) [(7 :: nat, ''a''), (7, ''b'')]) = Inr 1 \<and>
   map_sum id GetGlobalDepth
     (Insert_seq (\<lambda>x. x) (ExtendibleHashTable_new 1) [(7 :: nat, ''a''), (7, ''b'')]) = Inr 0"
proof (intro conjI impI)
  assume a: "Find hash t key = Inr (Some v0, t)"
  then obtain index where i: "IndexOf hash t key = Inr index"
    and l: "\<not> length (dir t) \<le> index"
    and b: "Bucket_Find key (heap t (dir t ! index)) = Some v0"
    by (auto simp: Find_def split: sum.splits if_splits)
  let ?r = "Bucket_Insert key value (heap t (dir t ! index))"
  have f: "fst ?r" using b by (simp add: Bucket_Insert_bound)
  then have e: "Insert hash t key value = Inr (t\<lparr>heap := (heap t)(dir t ! index := snd ?r)\<rparr>)"
    using i l by (simp add: Insert.simps [of hash t key "value"] Let_def)
  show "\<exists>t'. Insert hash t key value = Inr t' \<and>
            GetGlobalDepth t' = GetGlobalDepth t \<and>
            GetNumBuckets t' = GetNumBuckets t \<and>
            dir t' = dir t \<and> next_addr t' = next_addr t \<and>
            (\<forall>a. GetDepth (heap t' a) = GetDepth (heap t a)) \<and>
            (\<forall>slot. GetLocalDepth t' slot = GetLocalDepth t slot) \<and>
            Find hash t' key = Inr (Some value, t')"
    using Insert_Find [OF e]
    by (auto simp: e GetGlobalDepth_def GetNumBuckets_def GetDepth_def GetLocalDepth_def)
next
  show "Find_after (\<lambda>x. x) 7
     (Insert_seq (\<lambda>x. x) (ExtendibleHashTable_new 1) [(7 :: nat, ''a''), (7, ''b'')]) =
     Inr (Some ''b'')"
    by code_simp
  show "map_sum id GetNumBuckets
     (Insert_seq (\<lambda>x. x) (ExtendibleHashTable_new 1) [(7 :: nat, ''a''), (7, ''b'')]) = Inr 1"
    by code_simp
  show "map_sum id GetGlobalDepth
     (Insert_seq (\<lambda>x. x) (ExtendibleHashTable_new 1) [(7 :: nat, ''a''), (7, ''b'')]) = Inr 0"
    by code_simp
qed

theorem Insert_bound_key_no_split_witness:
  "Find_after (\<lambda>x. x) 7 (Insert (\<lambda>x. x) (ExtendibleHashTable_new 1) (7 :: nat) ''a'') =
     Inr (Some ''a'') \<and>
   (\<exists>t t'. Insert (\<lambda>x. x) (ExtendibleHashTable_new 1) (7 :: nat) ''a'' = Inr t \<and>
      IsFull (heap t (dir t ! 0)) \<and>
      Insert (\<lambda>x. x) t 7 ''b'' = Inr t' \<and>
      GetGlobalDepth t' = GetGlobalDepth t \<and> GetNumBuckets t' = GetNumBuckets t \<and>
      dir t' = dir t \<and> GetLocalDepth t' 0 = GetLocalDepth t 0 \<and>
      Find (\<lambda>x. x) t' 7 = Inr (Some ''b'', t'))"
proof -
  let ?h = "\<lambda>x :: nat. x"
  let ?t0 = "ExtendibleHashTable_new 1 :: (nat, string) ExtendibleHashTable"
  have g: "Find_after ?h 7 (Insert ?h ?t0 7 ''a'') = Inr (Some ''a'')" by code_simp
  have u: "map_sum id (\<lambda>t. IsFull (heap t (dir t ! 0))) (Insert ?h ?t0 7 ''a'') = Inr True"
    by code_simp
  from g obtain t where i: "Insert ?h ?t0 7 ''a'' = Inr t"
    by (cases "Insert ?h ?t0 7 ''a''") (auto simp: Find_after_def)
  have f: "Find ?h t 7 = Inr (Some ''a'', t)"
    using i by (rule Insert_Find)
  have full: "IsFull (heap t (dir t ! 0))" using u i by simp
  from Insert_bound_key_no_split [of ?h t 7 "''a''" "''b''"] f
  obtain t' where "Insert ?h t 7 ''b'' = Inr t'" "GetGlobalDepth t' = GetGlobalDepth t"
    "GetNumBuckets t' = GetNumBuckets t" "dir t' = dir t" "GetLocalDepth t' 0 = GetLocalDepth t 0"
    "Find ?h t' 7 = Inr (Some ''b'', t')"
    by blast
  then show ?thesis using g i full by auto
qed

subsection \<open>Scenario H1\<close>

text \<open>
  Claim C5 as stated fails in the bucket count: each of the two splits of the third
  insertion creates a bucket, so the table ends with three buckets, not two (the
  directory is \<open>[b, b', b'', b']\<close>: \<open>b\<close> holds 0 and 4, \<open>b''\<close> holds 2 and \<open>b'\<close>,
  created by the first split, is empty).
\<close>

theorem H1_not_two_buckets:
  "\<not> (map_sum id GetGlobalDepth
     (Insert_seq (\<lambda>x. x) (ExtendibleHashTable_new 2) [(0, 0), (4, 4), (2 :: nat, 2 :: nat)]) = Inr 2 \<and>
   map_sum id GetNumBuckets
     (Insert_seq (\<lambda>x. x) (ExtendibleHashTable_new 2) [(0, 0), (4, 4), (2 :: nat, 2 :: nat)]) = Inr 2 \<and>
   Find_after (\<lambda>x. x) 4
     (Insert_seq (\<lambda>x. x) (ExtendibleHashTable_new 2) [(0, 0), (4, 4), (2 :: nat, 2 :: nat)]) =
     Inr (Some 4))"
  by code_simp


text \<open>
  Claim C5, amended. From a freshly constructed table with the identity hash and
  \<open>bucket_capacity = 2\<close>, after \<open>Insert(0,0)\<close>, \<open>Insert(4,4)\<close>, \<open>Insert(2,2)\<close>:
  \<open>GetGlobalDepth()\<close> returns 2, \<open>GetNumBuckets()\<close> returns 3 and \<open>Find(4)\<close> returns 4.
\<close>

theorem H1_three_buckets:
  "map_sum id GetGlobalDepth
     (Insert_seq (\<lambda>x. x) (ExtendibleHashTable_new 2) [(0, 0), (4, 4), (2 :: nat, 2 :: nat)]) = Inr 2 \<and>
   map_sum id GetNumBuckets
     (Insert_seq (\<lambda>x. x) (ExtendibleHashTable_new 2) [(0, 0), (4, 4), (2 :: nat, 2 :: nat)]) = Inr 3 \<and>
   Find_after (\<lambda>x. x) 4
     (Insert_seq (\<lambda>x. x) (ExtendibleHashTable_new 2) [(0, 0), (4, 4), (2 :: nat, 2 :: nat)]) =
     Inr (Some 4)"
  by code_simp


subsection \<open>What Find and Remove leave unchanged\<close>

lemma map_of_erase_first:
  "k' \<noteq> key \<Longrightarrow> map_of (erase_first key items) k' = map_of items k'"
  by (induction items) auto

text \<open>
  Claim C10. In every table state: \<open>Find key\<close> returns the table it was given; and
  when \<open>Remove key\<close> returns, global depth, directory (its length and every slot's
  bucket), bucket count, bucket capacity and every bucket's local depth are unchanged,
  every bucket other than the one at the slot of \<open>key\<close> is unchanged, and \<open>Find\<close>
  gives the same result as before for every other key.
\<close>

theorem Find_Remove_frame:
  "(Find hash t key = Inr (r, t') \<longrightarrow> t' = t) \<and>
   (Remove_key hash t key = Inr (b, t') \<longrightarrow>
      GetGlobalDepth t' = GetGlobalDepth t \<and> dir t' = dir t \<and>
      GetNumBuckets t' = GetNumBuckets t \<and> bucket_size t' = bucket_size t \<and>
      next_addr t' = next_addr t \<and>
      (\<forall>a. GetDepth (heap t' a) = GetDepth (heap t a) \<and> b_size (heap t' a) = b_size (heap t a)) \<and>
      (\<forall>slot. GetLocalDepth t' slot = GetLocalDepth t slot) \<and>
      (\<forall>index a. IndexOf hash t key = Inr index \<and> a \<noteq> dir t ! index \<longrightarrow> heap t' a = heap t a) \<and>
      (\<forall>k'. k' \<noteq> key \<longrightarrow> map_sum id fst (Find hash t' k') = map_sum id fst (Find hash t k')))"
proof (intro conjI impI)
  assume "Find hash t key = Inr (r, t')"
  then show "t' = t" by (auto simp: Find_def split: sum.splits if_splits)
next
  assume a: "Remove_key hash t key = Inr (b, t')"
  then obtain index where i: "IndexOf hash t key = Inr index"
    and l: "\<not> length (dir t) \<le> index"
    and t': "t' = t \<or> t' = t\<lparr>heap := (heap t)
                     (dir t ! index := snd (Bucket_Remove key (heap t (dir t ! index))))\<rparr>"
    by (auto simp: Remove_key_def split: sum.splits if_splits)
  show "GetGlobalDepth t' = GetGlobalDepth t" "dir t' = dir t" "GetNumBuckets t' = GetNumBuckets t"
    "bucket_size t' = bucket_size t" "next_addr t' = next_addr t"
    using t' by (auto simp: GetGlobalDepth_def GetNumBuckets_def)
  show "\<forall>a. GetDepth (heap t' a) = GetDepth (heap t a) \<and> b_size (heap t' a) = b_size (heap t a)"
    using t' by (auto simp: GetDepth_def)
  show "\<forall>slot. GetLocalDepth t' slot = GetLocalDepth t slot"
    using t' by (auto simp: GetDepth_def GetLocalDepth_def)
  show "\<forall>index a. IndexOf hash t key = Inr index \<and> a \<noteq> dir t ! index \<longrightarrow> heap t' a = heap t a"
    using t' i by auto
  show "\<forall>k'. k' \<noteq> key \<longrightarrow> map_sum id fst (Find hash t' k') = map_sum id fst (Find hash t k')"
    using t'
    by (auto simp: Find_def IndexOf_def Bucket_Find_def Bucket_Remove_def map_of_erase_first
             split: sum.splits)
qed


theorem Find_Remove_frame_witness:
  "\<exists>t b t'. Insert_seq (\<lambda>x. x) (ExtendibleHashTable_new 2) [(1 :: nat, 1 :: nat), (5, 5), (9, 9)] = Inr t \<and>
      Find (\<lambda>x. x) t 5 = Inr (Some 5, t) \<and>
      Remove_key (\<lambda>x. x) t 5 = Inr (b, t') \<and>
      GetGlobalDepth t' = GetGlobalDepth t \<and> dir t' = dir t \<and>
      GetNumBuckets t' = GetNumBuckets t \<and>
      GetLocalDepth t' 1 = GetLocalDepth t 1 \<and>
      map_sum id fst (Find (\<lambda>x. x) t' 9) = map_sum id fst (Find (\<lambda>x. x) t 9)"
proof -
  let ?h = "\<lambda>x :: nat. x"
  let ?kvs = "[(1 :: nat, 1 :: nat), (5, 5), (9, 9)]"
  let ?r = "Insert_seq ?h (ExtendibleHashTable_new 2) ?kvs"
  have "Find_after ?h 5 ?r = Inr (Some 5)" by code_simp
  then obtain t where i: "?r = Inr t" and f0: "map_sum id fst (Find ?h t 5) = Inr (Some 5)"
    by (cases ?r) (auto simp: Find_after_def)
  from f0 obtain t0 where f1: "Find ?h t 5 = Inr (Some 5, t0)"
    by (cases "Find ?h t 5") auto
  from Find_Remove_frame [of ?h t 5 "Some 5" t0] f1 have f: "Find ?h t 5 = Inr (Some 5, t)"
    by simp
  then obtain b t' where r: "Remove_key ?h t 5 = Inr (b, t')"
    by (auto simp: Find_def Remove_key_def split: sum.splits if_splits)
  from Find_Remove_frame [of ?h t 5 _ t' b] r
  have "GetGlobalDepth t' = GetGlobalDepth t" "dir t' = dir t" "GetNumBuckets t' = GetNumBuckets t"
    "GetLocalDepth t' 1 = GetLocalDepth t 1"
    "map_sum id fst (Find ?h t' 9) = map_sum id fst (Find ?h t 9)"
    by simp_all
  then show ?thesis using i f r by blast
qed

subsection \<open>When Insert returns\<close>

lemma redistribute_ok:
  "global_depth t \<le> 30 \<Longrightarrow> \<exists>h'. redistribute hash t lm oi a db items h = Inr h'"
  by (induction items arbitrary: h) (auto simp: IndexOf_def low_mask_def Let_def)

lemma IncrementDepth_fields:
  "b_list (IncrementDepth b) = b_list b" "b_depth (IncrementDepth b) = Suc (b_depth b)"
  "b_size (IncrementDepth b) = b_size b"
  by (simp_all add: IncrementDepth_def)

text \<open>The split proper as one equation, for a bucket below depth 30 and a fresh address.\<close>

lemma split_at_eq:
  assumes d: "b_depth (heap t a) < 30" and f: "a \<noteq> next_addr t"
  shows "split_at hash t index a =
           (case redistribute hash t (2 ^ Suc (b_depth (heap t a)) - 1)
                   (index mod 2 ^ Suc (b_depth (heap t a))) a (next_addr t)
                   (b_list (heap t a))
                   ((heap t)(a := IncrementDepth (heap t a),
                             next_addr t := Bucket_new (bucket_size t)
                                              (Suc (b_depth (heap t a))))) of
              Inl err \<Rightarrow> Inl err
            | Inr h \<Rightarrow>
                Inr (t\<lparr>next_addr := Suc (next_addr t),
                       num_buckets := num_buckets t + 1,
                       heap := h,
                       dir := remap_directory (2 ^ Suc (b_depth (heap t a)) - 1)
                                (index mod 2 ^ Suc (b_depth (heap t a)))
                                (flip_bit (b_depth (heap t a))
                                   (index mod 2 ^ Suc (b_depth (heap t a))))
                                a (next_addr t) (dir t)\<rparr>))"
proof -
  let ?n = "Suc (b_depth (heap t a))"
  let ?h3 = "(heap t)(a := IncrementDepth (heap t a),
                      next_addr t := Bucket_new (bucket_size t) ?n)"
  let ?t3 = "t\<lparr>heap := ?h3, next_addr := Suc (next_addr t), num_buckets := num_buckets t + 1\<rparr>"
  have m: "low_mask ?n = Inr (2 ^ ?n - 1)"
    using d by (simp add: low_mask_def del: power_Suc)
  have g: "redistribute hash ?t3 lm oi a db items h = redistribute hash t lm oi a db items h"
    for lm oi db items h
    by (rule redistribute_global_depth) simp
  show ?thesis
    using f
    by (simp add: split_at_def Let_def m and_low_mask GetItems_def GetDepth_def
                  IncrementDepth_fields divide_index_flip' g
             del: power_Suc cong: sum.case_cong)
qed

lemma split_at_ok:
  assumes "global_depth t \<le> 30" "b_depth (heap t a) < 30" "a \<noteq> next_addr t"
  shows "\<exists>t'. split_at hash t index a = Inr t'"
proof -
  let ?n = "Suc (b_depth (heap t a))"
  obtain h' where "redistribute hash t (2 ^ ?n - 1) (index mod 2 ^ ?n) a (next_addr t)
                   (b_list (heap t a))
                   ((heap t)(a := IncrementDepth (heap t a),
                             next_addr t := Bucket_new (bucket_size t) ?n)) = Inr h'"
    using redistribute_ok [OF assms(1)] by blast
  then show ?thesis
    by (simp only: split_at_eq [OF assms(2,3)] sum.case) blast
qed

lemma split_bucket_ok:
  assumes inv: "table_inv hash t" and idx: "index < length (dir t)"
    and d: "b_depth (heap t (dir t ! index)) < 30"
  shows "\<exists>t'. split_bucket hash t index = Inr t'"
proof -
  let ?a = "dir t ! index"
  have f: "?a \<noteq> next_addr t" and g: "global_depth t \<le> 30"
    using table_inv_slot [OF inv idx] inv by (simp_all add: slot_inv_def table_inv_def)
  show ?thesis
  proof (cases "b_depth (heap t ?a) = global_depth t")
    case True
    let ?u = "expand_directory t"
    have "global_depth ?u \<le> 30" "b_depth (heap ?u ?a) < 30" "?a \<noteq> next_addr ?u"
      using d f True by (simp_all add: expand_directory_def)
    from split_at_ok [OF this] show ?thesis
      using True by (simp add: split_bucket_def GetDepth_def)
  next
    case False
    from split_at_ok [OF g d f] show ?thesis
      using False by (simp add: split_bucket_def GetDepth_def)
  qed
qed

lemma split_bucket_overflow:
  "30 \<le> b_depth (heap t (dir t ! index)) \<Longrightarrow> split_bucket hash t index = Inl SignedOverflow"
  by (simp add: split_bucket_def split_at_def Let_def GetDepth_def IncrementDepth_def
                low_mask_def expand_directory_def)

text \<open>A split moves entries between buckets of the directory and brings in no key.\<close>

lemma stored_keys_set:
  "set (stored_keys t) = (\<Union>a \<in> set (dir t). fst ` set (b_list (heap t a)))"
  by (auto simp: stored_keys_def)

lemma set_remap_directory:
  "set (remap_directory lm oi di ob db d) \<subseteq> insert ob (insert db (set d))"
  by (auto simp: remap_directory_def)

lemma split_at_keys:
  assumes s: "split_at hash t index a = Inr t'" and f: "a \<noteq> next_addr t"
    and d: "distinct (map fst (b_list (heap t a)))" and m: "a \<in> set (dir t)"
  shows "set (stored_keys t') \<subseteq> set (stored_keys t)"
proof
  fix k
  assume "k \<in> set (stored_keys t')"
  then obtain y where y: "y \<in> set (dir t')" and k: "k \<in> fst ` set (b_list (heap t' y))"
    by (auto simp: stored_keys_set)
  note H = split_at_heap [OF s f d]
  from y have c: "y = a \<or> y = next_addr t \<or> y \<in> set (dir t)"
    using set_remap_directory by (fastforce simp: split_at_Inr(3) [OF s])
  have "k \<in> fst ` set (b_list (heap t a)) \<or> (y \<in> set (dir t) \<and> k \<in> fst ` set (b_list (heap t y)))"
  proof (cases "y = a")
    case True
    then show ?thesis using k by (auto simp: H(1))
  next
    case False
    show ?thesis
    proof (cases "y = next_addr t")
      case True
      then show ?thesis using k H(2) by auto
    next
      case n: False
      then show ?thesis using k c False H(4) [OF False n] by simp
    qed
  qed
  then show "k \<in> set (stored_keys t)"
    using m by (auto simp: stored_keys_set)
qed

lemma split_bucket_keys:
  assumes inv: "table_inv hash t" and idx: "index < length (dir t)"
    and s: "split_bucket hash t index = Inr t'"
  shows "set (stored_keys t') \<subseteq> set (stored_keys t)"
proof -
  let ?a = "dir t ! index"
  have sl: "slot_inv hash t index" using inv idx by (rule table_inv_slot)
  then have f: "?a \<noteq> next_addr t" and d: "distinct (map fst (b_list (heap t ?a)))"
    by (simp_all add: slot_inv_def)
  have m: "?a \<in> set (dir t)" using idx by simp
  show ?thesis
  proof (cases "b_depth (heap t ?a) = global_depth t")
    case True
    let ?u = "expand_directory t"
    have len: "length (dir t) = 2 ^ global_depth t" and g: "global_depth t \<le> 30"
      using inv by (simp_all add: table_inv_def)
    have du: "dir ?u = dir t @ dir t" using len g by (rule expand_directory_dir)
    have hu: "heap ?u = heap t" "next_addr ?u = next_addr t" by (simp_all add: expand_directory_def)
    have "split_at hash ?u index ?a = Inr t'"
      using s True by (simp add: split_bucket_def GetDepth_def)
    from split_at_keys [OF this] f d m have "set (stored_keys t') \<subseteq> set (stored_keys ?u)"
      by (simp add: hu du)
    also have "set (stored_keys ?u) = set (stored_keys t)"
      by (simp add: stored_keys_set hu du)
    finally show ?thesis .
  next
    case False
    then have "split_at hash t index ?a = Inr t'"
      using s by (simp add: split_bucket_def GetDepth_def)
    from split_at_keys [OF this f d m] show ?thesis .
  qed
qed

text \<open>
  A bucket that refuses a key is shallower than 30, if the keys are told apart by the
  low 30 bits of their hashes.
\<close>

lemma full_bucket_shallow:
  assumes inv: "table_inv hash t" and i: "IndexOf hash t key = Inr index"
    and r: "\<not> fst (Bucket_Insert key value (heap t (dir t ! index)))"
    and inj: "inj_on (\<lambda>k. hash k mod 2 ^ 30) (set (key # stored_keys t))"
  shows "b_depth (heap t (dir t ! index)) < 30"
proof (rule ccontr)
  let ?a = "dir t ! index"
  let ?d = "b_depth (heap t ?a)"
  assume "\<not> ?d < 30"
  then have d: "30 \<le> ?d" by simp
  have idx: "index < length (dir t)" using inv i by (rule IndexOf_less)
  have sl: "slot_inv hash t index" using inv idx by (rule table_inv_slot)
  have bs: "1 \<le> bucket_size t" using inv by (simp add: table_inv_def)
  from r have n: "map_of (b_list (heap t ?a)) key = None" and full: "IsFull (heap t ?a)"
    by (auto simp: Bucket_Insert_def split: if_splits)
  from full sl bs have "b_list (heap t ?a) \<noteq> []"
    by (auto simp: IsFull_def slot_inv_def)
  then obtain e where e: "e \<in> set (b_list (heap t ?a))"
    by (cases "b_list (heap t ?a)") auto
  then have ne: "fst e \<noteq> key"
    using n by (auto simp: map_of_eq_None_iff)
  have st: "fst e \<in> set (stored_keys t)"
    using e idx by (auto simp: stored_keys_set)
  have "hash (fst e) mod 2 ^ ?d = index mod 2 ^ ?d"
    using sl e by (simp add: slot_inv_def)
  moreover have "index mod 2 ^ ?d = hash key mod 2 ^ ?d"
    using i sl by (simp add: IndexOf_Inr slot_inv_def mod_exp_mod_exp)
  ultimately have "hash (fst e) mod 2 ^ ?d mod 2 ^ 30 = hash key mod 2 ^ ?d mod 2 ^ 30"
    by simp
  then have "hash (fst e) mod 2 ^ 30 = hash key mod 2 ^ 30"
    using d by (simp only: mod_exp_mod_exp)
  with inj st have "fst e = key"
    by (auto simp: inj_on_def)
  with ne show False by simp
qed

lemma Insert_returns_inv:
  "table_inv hash t \<Longrightarrow> inj_on (\<lambda>k. hash k mod 2 ^ 30) (set (key # stored_keys t)) \<Longrightarrow>
     \<exists>t'. Insert hash t key value = Inr t'"
proof (induction hash t key "value" rule: Insert.induct)
  case (1 hash t key "value")
  have g: "global_depth t \<le> 30" using "1.prems"(1) by (simp add: table_inv_def)
  then obtain index where i: "IndexOf hash t key = Inr index"
    by (simp add: IndexOf_def low_mask_def)
  have idx: "index < length (dir t)" using "1.prems"(1) i by (rule IndexOf_less)
  let ?r = "Bucket_Insert key value (heap t (dir t ! index))"
  show ?case
  proof (cases "fst ?r")
    case True
    then show ?thesis
      using i idx by (simp add: Insert.simps [of hash t key "value"] Let_def)
  next
    case False
    have "b_depth (heap t (dir t ! index)) < 30"
      using "1.prems"(1) i False "1.prems"(2) by (rule full_bucket_shallow)
    with "1.prems"(1) idx obtain t1 where s: "split_bucket hash t index = Inr t1"
      using split_bucket_ok by blast
    have inv1: "table_inv hash t1" using "1.prems"(1) idx s by (rule split_bucket_inv)
    have "set (key # stored_keys t1) \<subseteq> set (key # stored_keys t)"
      using split_bucket_keys [OF "1.prems"(1) idx s] by auto
    then have inj1: "inj_on (\<lambda>k. hash k mod 2 ^ 30) (set (key # stored_keys t1))"
      using "1.prems"(2) by (rule inj_on_subset [rotated])
    from "1.IH" [OF i _ refl False s inv1 inj1] idx
    obtain t' where "Insert hash t1 key value = Inr t'" by auto
    then show ?thesis
      using i idx False s by (simp add: Insert.simps [of hash t key "value"] Let_def)
  qed
qed

text \<open>
  Two keys whose hashes agree in the low 31 bits, one of them alone in a bucket of
  capacity 1: each split leaves the stored key in the bucket that the new key indexes.
\<close>

lemma split_at_single:
  assumes s: "split_at hash t index a = Inr t'" and f: "a \<noteq> next_addr t"
    and l: "b_list (heap t a) = [(k0, v0)]"
    and g: "global_depth t \<le> 30" and n: "Suc (b_depth (heap t a)) \<le> global_depth t"
    and bs: "1 \<le> bucket_size t" and i: "i < length (dir t)"
    and c: "i mod 2 ^ Suc (b_depth (heap t a)) = hash k0 mod 2 ^ Suc (b_depth (heap t a))"
    and m: "i mod 2 ^ b_depth (heap t a) = index mod 2 ^ b_depth (heap t a)"
  shows "b_list (heap t' (dir t' ! i)) = [(k0, v0)]"
proof -
  let ?d = "b_depth (heap t a)"
  let ?oi = "index mod 2 ^ Suc ?d"
  let ?di = "flip_bit ?d ?oi"
  have d30: "?d < 30" using split_at_Inr(1) [OF s] .
  have oi_lt: "?oi < 2 ^ Suc ?d" by simp
  note F = flip_bit_props [OF oi_lt]
  have "?oi mod 2 ^ ?d = i mod 2 ^ Suc ?d mod 2 ^ ?d"
    using m by (simp add: mod_exp_mod_exp del: power_Suc)
  moreover have "?di mod 2 ^ ?d = i mod 2 ^ Suc ?d mod 2 ^ ?d"
    using m F(2) by (simp add: mod_exp_mod_exp del: power_Suc)
  moreover have "i mod 2 ^ Suc ?d < 2 ^ Suc ?d" by simp
  ultimately have pick: "i mod 2 ^ Suc ?d = ?oi \<or> i mod 2 ^ Suc ?d = ?di"
    using two_lifts [OF oi_lt F(1), of "i mod 2 ^ Suc ?d"] F(3) by metis
  have k0: "hash k0 mod 2 ^ global_depth t mod 2 ^ Suc ?d = i mod 2 ^ Suc ?d"
    using n c by (simp add: mod_exp_mod_exp del: power_Suc)
  have nth: "dir t' ! i = (if i mod 2 ^ Suc ?d = ?oi then a
                           else if i mod 2 ^ Suc ?d = ?di then next_addr t else dir t ! i)"
    using i by (simp add: split_at_Inr(3) [OF s] nth_remap_directory del: power_Suc)
  show ?thesis
  proof (cases "i mod 2 ^ Suc ?d = ?oi")
    case True
    have "distinct (map fst (b_list (heap t a)))" by (simp add: l)
    from split_at_heap(1) [OF s f this] True k0 show ?thesis
      by (simp add: nth l del: power_Suc)
  next
    case False
    then have di: "i mod 2 ^ Suc ?d = ?di" using pick by simp
    have ix: "IndexOf hash t k0 = Inr (hash k0 mod 2 ^ global_depth t)"
      using g by (simp add: IndexOf_Inr)
    have "heap t' (next_addr t) = \<lparr>b_size = bucket_size t, b_depth = Suc ?d, b_list = [(k0, v0)]\<rparr>"
      using s f False k0 bs
      by (auto simp add: split_at_eq [OF d30 f] l ix and_low_mask Let_def Bucket_Insert_def
                 Bucket_new_def IsFull_def
               simp del: power_Suc split: sum.splits)
    then show ?thesis
      using False di by (simp add: nth del: power_Suc)
  qed
qed

lemma split_bucket_single:
  assumes inv: "table_inv hash t" and i: "IndexOf hash t key = Inr index"
    and l: "b_list (heap t (dir t ! index)) = [(k0, v0)]"
    and h: "hash k0 mod 2 ^ 31 = hash key mod 2 ^ 31"
    and s: "split_bucket hash t index = Inr t'"
    and i': "IndexOf hash t' key = Inr i'"
  shows "b_list (heap t' (dir t' ! i')) = [(k0, v0)]"
proof -
  let ?a = "dir t ! index"
  let ?d = "b_depth (heap t ?a)"
  have idx: "index < length (dir t)" using inv i by (rule IndexOf_less)
  have sl: "slot_inv hash t index" using inv idx by (rule table_inv_slot)
  then have f: "?a \<noteq> next_addr t" and dle: "?d \<le> global_depth t"
    by (simp_all add: slot_inv_def)
  have d30: "?d < 30" using split_bucket_Inr(1) [OF s] .
  have bs: "1 \<le> bucket_size t" and len: "length (dir t) = 2 ^ global_depth t"
    and g: "global_depth t \<le> 30"
    using inv by (simp_all add: table_inv_def)
  have inv': "table_inv hash t'" using inv idx s by (rule split_bucket_inv)
  have ix: "index = hash key mod 2 ^ global_depth t" and ix': "i' = hash key mod 2 ^ global_depth t'"
    using i i' by (simp_all add: IndexOf_Inr)
  have gd': "global_depth t' = (if ?d = global_depth t then Suc (global_depth t) else global_depth t)"
    using split_bucket_Inr(2) [OF s] .
  have n': "Suc ?d \<le> global_depth t'" using dle by (simp add: gd')
  have "hash k0 mod 2 ^ 31 mod 2 ^ Suc ?d = hash key mod 2 ^ 31 mod 2 ^ Suc ?d"
    by (simp only: h)
  then have hk: "hash k0 mod 2 ^ Suc ?d = hash key mod 2 ^ Suc ?d"
    using d30 by (simp only: mod_exp_mod_exp [of "Suc ?d" 31])
  have c: "i' mod 2 ^ Suc ?d = hash k0 mod 2 ^ Suc ?d"
    using n' by (simp add: ix' hk mod_exp_mod_exp del: power_Suc)
  have m: "i' mod 2 ^ ?d = index mod 2 ^ ?d"
    using n' dle by (simp add: ix ix' mod_exp_mod_exp del: power_Suc)
  have il: "i' < 2 ^ global_depth t'" by (simp add: ix')
  show ?thesis
  proof (cases "?d = global_depth t")
    case True
    let ?u = "expand_directory t"
    have du: "dir ?u = dir t @ dir t" using len g by (rule expand_directory_dir)
    have hu: "heap ?u = heap t" "next_addr ?u = next_addr t" "bucket_size ?u = bucket_size t"
      "global_depth ?u = Suc (global_depth t)"
      by (simp_all add: expand_directory_def)
    have sp: "split_at hash ?u index ?a = Inr t'"
      using s True by (simp add: split_bucket_def GetDepth_def)
    have "i' < length (dir ?u)" using il True by (simp add: du len gd')
    from split_at_single [OF sp, of k0 v0 i'] this f l d30 True bs c m show ?thesis
      by (simp add: hu del: power_Suc)
  next
    case False
    then have sp: "split_at hash t index ?a = Inr t'"
      using s by (simp add: split_bucket_def GetDepth_def)
    have "i' < length (dir t)" using il False by (simp add: len gd')
    from split_at_single [OF sp f l g _ bs this c m] False dle show ?thesis
      by simp
  qed
qed

lemma Insert_overflow:
  "table_inv hash t \<Longrightarrow> bucket_size t = 1 \<Longrightarrow> k0 \<noteq> key \<Longrightarrow>
   hash k0 mod 2 ^ 31 = hash key mod 2 ^ 31 \<Longrightarrow>
   (\<And>index. IndexOf hash t key = Inr index \<Longrightarrow> b_list (heap t (dir t ! index)) = [(k0, v0)]) \<Longrightarrow>
   Insert hash t key value = Inl SignedOverflow"
proof (induction hash t key "value" rule: Insert.induct)
  case (1 hash t key "value")
  have g: "global_depth t \<le> 30" using "1.prems"(1) by (simp add: table_inv_def)
  then obtain index where i: "IndexOf hash t key = Inr index"
    by (simp add: IndexOf_def low_mask_def)
  have idx: "index < length (dir t)" using "1.prems"(1) i by (rule IndexOf_less)
  have l: "b_list (heap t (dir t ! index)) = [(k0, v0)]" using i by (rule "1.prems"(5))
  have sz: "b_size (heap t (dir t ! index)) = 1"
    using table_inv_slot [OF "1.prems"(1) idx] "1.prems"(2) by (simp add: slot_inv_def)
  have nf: "\<not> fst (Bucket_Insert key value (heap t (dir t ! index)))"
    using l sz "1.prems"(3) by (simp add: Bucket_Insert_def IsFull_def)
  show ?case
  proof (cases "b_depth (heap t (dir t ! index)) < 30")
    case False
    then have "split_bucket hash t index = Inl SignedOverflow"
      by (simp add: split_bucket_overflow)
    then show ?thesis
      using i idx nf by (simp add: Insert.simps [of hash t key "value"] Let_def)
  next
    case True
    with "1.prems"(1) idx obtain t1 where s: "split_bucket hash t index = Inr t1"
      using split_bucket_ok by blast
    have inv1: "table_inv hash t1" using "1.prems"(1) idx s by (rule split_bucket_inv)
    have bs1: "bucket_size t1 = 1" using split_bucket_Inr(6) [OF s] "1.prems"(2) by simp
    have l1: "b_list (heap t1 (dir t1 ! i1)) = [(k0, v0)]" if "IndexOf hash t1 key = Inr i1" for i1
      using "1.prems"(1) i l "1.prems"(4) s that by (rule split_bucket_single)
    from "1.IH" [OF i _ refl nf s inv1 bs1 "1.prems"(3,4) l1] idx
    have "Insert hash t1 key value = Inl SignedOverflow" by simp
    then show ?thesis
      using i idx nf s by (simp add: Insert.simps [of hash t key "value"] Let_def)
  qed
qed

text \<open>
  \<open>ExtendibleHashTable<int, int>\<close> with \<open>bucket_capacity = 1\<close>: after \<open>Insert(0, 0)\<close>
  the call \<open>Insert(INT_MIN, 1)\<close> ends in the overflow of \<open>(1 << 31) - 1\<close>. The hashes
  of 0 and \<open>INT_MIN\<close> differ and agree in the low 31 bits.
\<close>

lemma Insert_INT_MIN_overflow:
  "Insert_seq std_hash_int (ExtendibleHashTable_new 1) [(0, 0 :: int), (- 2147483648, 1)] =
     Inl SignedOverflow"
proof -
  let ?t0 = "ExtendibleHashTable_new 1 :: (int, int) ExtendibleHashTable"
  let ?r = "Insert std_hash_int ?t0 0 0"
  have a: "map_sum id stored_keys ?r = Inr [0]" by code_simp
  have b: "map_sum id bucket_size ?r = Inr 1" by code_simp
  have c: "map_sum id global_depth ?r = Inr 0" by code_simp
  have d: "map_sum id (\<lambda>t. b_list (heap t (dir t ! 0))) ?r = Inr [(0, 0)]" by code_simp
  from a obtain t1 where i: "?r = Inr t1" by (cases ?r) auto
  have bs: "bucket_size t1 = 1" and gd: "global_depth t1 = 0"
    and l: "b_list (heap t1 (dir t1 ! 0)) = [(0, 0)]"
    using b c d unfolding i by simp_all
  have "reachable std_hash_int ?t0" by (rule reachable.constructed) simp
  then have "reachable std_hash_int t1" using i by (rule reachable.after_Insert)
  then have inv: "table_inv std_hash_int t1" by (rule reachable_inv)
  have h: "std_hash_int 0 mod 2 ^ 31 = std_hash_int (- 2147483648) mod 2 ^ 31"
    by (simp add: std_hash_int_def)
  have ix: "b_list (heap t1 (dir t1 ! index)) = [(0, 0)]"
    if "IndexOf std_hash_int t1 (- 2147483648) = Inr index" for index
    using that l by (simp add: IndexOf_Inr gd)
  have ov: "Insert std_hash_int t1 (- 2147483648) 1 = Inl SignedOverflow"
    using inv bs _ h ix by (rule Insert_overflow) simp
  show ?thesis
    by (simp only: Insert_seq.simps fst_conv snd_conv i ov sum.case)
qed

lemma first_Insert_stores_0:
  "map_sum id stored_keys
     (Insert_seq std_hash_int (ExtendibleHashTable_new 1) [(0, 0 :: int)]) = Inr [0]"
  by code_simp




subsection \<open>Insert, then Find: when the binding is there\<close>

text \<open>
  Claim C3 as stated fails: in a reachable state \<open>Insert\<close> need not return, and then
  no \<open>Find\<close> follows it. \<open>ExtendibleHashTable<int, int>\<close> with \<open>bucket_capacity = 1\<close>:
  after \<open>Insert(0, 0)\<close> the table holds the key 0, and \<open>Insert(INT_MIN, 1)\<close> followed
  by \<open>Find(INT_MIN)\<close> yields the overflow of \<open>(1 << 31) - 1\<close>, not the value 1.
\<close>

theorem Find_after_Insert_INT_MIN:
  "map_sum id stored_keys
     (Insert_seq std_hash_int (ExtendibleHashTable_new 1) [(0, 0 :: int)]) = Inr [0] \<and>
   Find_after std_hash_int (- 2147483648)
     (Insert_seq std_hash_int (ExtendibleHashTable_new 1) [(0, 0 :: int), (- 2147483648, 1)]) =
     Inl SignedOverflow \<and>
   Find_after std_hash_int (- 2147483648)
     (Insert_seq std_hash_int (ExtendibleHashTable_new 1) [(0, 0 :: int), (- 2147483648, 1)]) \<noteq>
     Inr (Some 1)"
proof -
  have "Find_after std_hash_int (- 2147483648)
     (Insert_seq std_hash_int (ExtendibleHashTable_new 1) [(0, 0 :: int), (- 2147483648, 1)]) =
     Inl SignedOverflow"
    by (simp only: Insert_INT_MIN_overflow Find_after_def sum.case)
  with first_Insert_stores_0 show ?thesis by simp
qed

text \<open>
  Claim C3, amended. For every reachable table state and every key whose hash,
  reduced to its low 30 bits, differs from that of every other stored key (\<open>hash mod
  2^30\<close> is injective on the stored keys together with the key): \<open>Insert key v1\<close>
  returns and \<open>Find key\<close> on the resulting table returns \<open>v1\<close>; a following
  \<open>Insert key v2\<close> returns as well and \<open>Find key\<close> then returns \<open>v2\<close>. And in every
  state whatsoever, whenever \<open>Insert key value\<close> returns, \<open>Find key\<close> on the
  resulting table returns \<open>value\<close>.
\<close>

theorem Insert_then_Find:
  "(reachable hash t \<and> inj_on (\<lambda>k. hash k mod 2 ^ 30) (set (key # stored_keys t)) \<longrightarrow>
      (\<exists>t1. Insert hash t key v1 = Inr t1 \<and> Find hash t1 key = Inr (Some v1, t1) \<and>
         (\<exists>t2. Insert hash t1 key v2 = Inr t2 \<and> Find hash t2 key = Inr (Some v2, t2)))) \<and>
   (Insert hash u key value = Inr u' \<longrightarrow> Find hash u' key = Inr (Some value, u'))"
proof (intro conjI impI)
  assume a: "reachable hash t \<and> inj_on (\<lambda>k. hash k mod 2 ^ 30) (set (key # stored_keys t))"
  then have "table_inv hash t" by (simp add: reachable_inv del: set_simps)
  with a obtain t1 where i: "Insert hash t key v1 = Inr t1"
    using Insert_returns_inv [of hash t key v1] by blast
  then have f: "Find hash t1 key = Inr (Some v1, t1)" by (rule Insert_Find)
  from Insert_overwrite_Find [OF f, of v2] i f
  show "\<exists>t1. Insert hash t key v1 = Inr t1 \<and> Find hash t1 key = Inr (Some v1, t1) \<and>
         (\<exists>t2. Insert hash t1 key v2 = Inr t2 \<and> Find hash t2 key = Inr (Some v2, t2))"
    by blast
next
  assume "Insert hash u key value = Inr u'"
  then show "Find hash u' key = Inr (Some value, u')" by (rule Insert_Find)
qed

theorem Insert_then_Find_witness:
  "map_sum id GetGlobalDepth
     (Insert_seq (\<lambda>x. x) (ExtendibleHashTable_new 2)
        [(0, 0), (4, 4), (2, 2), (8 :: nat, 7 :: nat)]) = Inr 3 \<and>
   (\<exists>t. Insert_seq (\<lambda>x. x) (ExtendibleHashTable_new 2) [(0, 0), (4, 4), (2 :: nat, 2 :: nat)] = Inr t \<and>
        GetGlobalDepth t = 2 \<and> stored_keys t = [0, 4, 2] \<and> reachable (\<lambda>x. x) t \<and>
        inj_on (\<lambda>k. k mod 2 ^ 30) (set (8 # stored_keys t)) \<and>
        (\<exists>t1. Insert (\<lambda>x. x) t 8 7 = Inr t1 \<and> Find (\<lambda>x. x) t1 8 = Inr (Some 7, t1) \<and>
           (\<exists>t2. Insert (\<lambda>x. x) t1 8 9 = Inr t2 \<and> Find (\<lambda>x. x) t2 8 = Inr (Some 9, t2))))"
proof -
  let ?h = "\<lambda>x :: nat. x"
  let ?r = "Insert_seq ?h (ExtendibleHashTable_new 2) [(0, 0), (4, 4), (2 :: nat, 2 :: nat)]"
  have g3: "map_sum id GetGlobalDepth
     (Insert_seq ?h (ExtendibleHashTable_new 2) [(0, 0), (4, 4), (2, 2), (8 :: nat, 7 :: nat)]) =
     Inr 3"
    by code_simp
  have "map_sum id stored_keys ?r = Inr [0, 4, 2]" by code_simp
  then obtain t where i: "?r = Inr t" and k: "stored_keys t = [0, 4, 2]"
    by (cases ?r) auto
  have "map_sum id GetGlobalDepth ?r = Inr 2" by code_simp
  then have g: "GetGlobalDepth t = 2" unfolding i by simp
  have "reachable ?h (ExtendibleHashTable_new 2 :: (nat, nat) ExtendibleHashTable)"
    by (rule reachable.constructed) simp
  then have r: "reachable ?h t" using i by (rule reachable_Insert_seq)
  have j: "inj_on (\<lambda>k. ?h k mod 2 ^ 30) (set (8 # stored_keys t))"
    by (simp add: k)
  have "\<exists>t1. Insert ?h t 8 7 = Inr t1 \<and> Find ?h t1 8 = Inr (Some 7, t1) \<and>
           (\<exists>t2. Insert ?h t1 8 9 = Inr t2 \<and> Find ?h t2 8 = Inr (Some 9, t2))"
    by (rule mp [OF Insert_then_Find [of ?h t 8 7 9, THEN conjunct1] conjI [OF r j]])
  with g3 i g k r j show ?thesis by blast
qed

end
